theory Spec2Isabelle
  imports Main "HOL-Library.FSet"
begin

section \<open>Slug resolver\<close>

text \<open>
  \<^verbatim>\<open>generateUniqueSlug\<close> (copy-products-between-users) builds its candidates with the
  template literal \<^verbatim>\<open>`${baseSlug}-${counter}`\<close>: the counter is printed in decimal.
\<close>

definition digit :: "nat \<Rightarrow> char" where
  "digit d = ''0123456789'' ! d"

fun decimal :: "nat \<Rightarrow> string" where
  "decimal n = (if n < 10 then [digit n] else decimal (n div 10) @ [digit (n mod 10)])"

definition candidate :: "string \<Rightarrow> nat \<Rightarrow> string" where
  "candidate baseSlug counter = baseSlug @ ''-'' @ decimal counter"

lemma digit_inj: "a < 10 \<Longrightarrow> b < 10 \<Longrightarrow> digit a = digit b \<Longrightarrow> a = b"
proof -
  assume a: "a < 10" and b: "b < 10" and e: "digit a = digit b"
  have d: "distinct ''0123456789''" by simp
  have la: "a < length ''0123456789''" using a by simp
  have lb: "b < length ''0123456789''" using b by simp
  from e have "''0123456789'' ! a = ''0123456789'' ! b" by (simp only: digit_def)
  with d la lb show "a = b" by (simp only: nth_eq_iff_index_eq)
qed

lemma decimal_length: "10 \<le> n \<Longrightarrow> 2 \<le> length (decimal n)"
proof -
  assume n: "10 \<le> n"
  have "1 \<le> length (decimal (n div 10))"
    by (subst decimal.simps) (simp del: decimal.simps)
  then show ?thesis using n
    by (subst decimal.simps) (simp del: decimal.simps)
qed

lemma decimal_inj: "decimal a = decimal b \<Longrightarrow> a = b"
proof (induction a arbitrary: b rule: decimal.induct)
  case (1 a)
  show ?case
  proof (cases "a < 10")
    case small_a: True
    show ?thesis
    proof (cases "b < 10")
      case True
      with small_a "1.prems" show ?thesis by (simp add: digit_inj)
    next
      case False
      then have "2 \<le> length (decimal b)" by (simp add: decimal_length del: decimal.simps)
      moreover have "length (decimal a) = 1" using small_a by simp
      ultimately show ?thesis using "1.prems" by (simp del: decimal.simps)
    qed
  next
    case big_a: False
    show ?thesis
    proof (cases "b < 10")
      case True
      from big_a have "2 \<le> length (decimal a)" by (simp add: decimal_length del: decimal.simps)
      moreover have "length (decimal b) = 1" using True by simp
      ultimately show ?thesis using "1.prems" by (simp del: decimal.simps)
    next
      case False
      have ea: "decimal a = decimal (a div 10) @ [digit (a mod 10)]"
        using big_a by (subst decimal.simps) simp
      have eb: "decimal b = decimal (b div 10) @ [digit (b mod 10)]"
        using False by (subst decimal.simps) simp
      from "1.prems" ea eb
      have q: "decimal (a div 10) = decimal (b div 10)" and r: "digit (a mod 10) = digit (b mod 10)"
        by (simp_all del: decimal.simps)
      from "1.IH" [OF big_a q] have "a div 10 = b div 10" .
      moreover from r have "a mod 10 = b mod 10" by (intro digit_inj) simp_all
      ultimately show ?thesis by (metis div_mult_mod_eq)
    qed
  qed
qed

lemma candidate_inj: "candidate b i = candidate b j \<Longrightarrow> i = j"
  by (simp add: candidate_def decimal_inj del: decimal.simps)


text \<open>
  The \<^verbatim>\<open>Set<string>\<close> of known slugs is a finite set. The loop state is the pair
  \<^verbatim>\<open>(uniqueSlug, counter)\<close>:
  \<^verbatim>\<open>
  let uniqueSlug = baseSlug
  let counter = 1
  while (existingSet.has(uniqueSlug)) {
    uniqueSlug = `${baseSlug}-${counter}`
    counter++
  }
  existingSet.add(uniqueSlug)
  return uniqueSlug
  \<close>
  The model counts with unbounded naturals; a JavaScript number counts exactly up to
  \<open>2^53\<close>, far beyond the size of any set that fits in memory.
\<close>

definition taken_from :: "string \<Rightarrow> string fset \<Rightarrow> nat \<Rightarrow> nat set" where
  "taken_from baseSlug existingSet counter =
     {k. counter \<le> k \<and> candidate baseSlug k |\<in>| existingSet}"

lemma finite_taken_from: "finite (taken_from b S c)"
proof -
  have "inj (candidate b)" by (rule injI) (rule candidate_inj)
  then have "finite (candidate b -` fset S)" by (simp add: finite_vimageI)
  moreover have "taken_from b S c \<subseteq> candidate b -` fset S"
    by (auto simp: taken_from_def)
  ultimately show ?thesis by (rule rev_finite_subset)
qed

lemma taken_from_step_in:
  "candidate b c |\<in>| S \<Longrightarrow> card (taken_from b S (Suc c)) < card (taken_from b S c)"
proof -
  assume m: "candidate b c |\<in>| S"
  have "c \<in> taken_from b S c" and "c \<notin> taken_from b S (Suc c)"
    using m by (simp_all add: taken_from_def)
  moreover have "taken_from b S (Suc c) \<subseteq> taken_from b S c"
    by (auto simp: taken_from_def)
  ultimately have "taken_from b S (Suc c) \<subset> taken_from b S c"
    by blast
  then show ?thesis by (simp add: finite_taken_from psubset_card_mono)
qed

lemma taken_from_step_out:
  "card (taken_from b S (Suc c)) \<le> card (taken_from b S c)"
proof -
  have "taken_from b S (Suc c) \<subseteq> taken_from b S c"
    by (auto simp: taken_from_def)
  then show ?thesis by (simp add: finite_taken_from card_mono)
qed

function slug_loop :: "string \<Rightarrow> string fset \<Rightarrow> string \<Rightarrow> nat \<Rightarrow> string" where
  "slug_loop baseSlug existingSet uniqueSlug counter =
     (if uniqueSlug |\<in>| existingSet
      then slug_loop baseSlug existingSet (candidate baseSlug counter) (counter + 1)
      else uniqueSlug)"
  by pat_completeness auto
termination
proof (relation "measure (\<lambda>(b, S, u, c).
    2 * card (taken_from b S c) + (if u |\<in>| S then 1 else 0))")
  show "wf (measure (\<lambda>(b, S, u, c).
    2 * card (taken_from b S c) + (if u |\<in>| S then 1 else 0)))"
    by simp
next
  fix baseSlug :: string and existingSet :: "string fset" and uniqueSlug :: string
    and counter :: nat
  assume "uniqueSlug |\<in>| existingSet"
  then show "((baseSlug, existingSet, candidate baseSlug counter, counter + 1),
              (baseSlug, existingSet, uniqueSlug, counter))
    \<in> measure (\<lambda>(b, S, u, c). 2 * card (taken_from b S c) + (if u |\<in>| S then 1 else 0))"
    using taken_from_step_in [of baseSlug counter existingSet]
      taken_from_step_out [of baseSlug existingSet counter]
    by auto
qed

declare slug_loop.simps [simp del]

definition generateUniqueSlug :: "string \<Rightarrow> string fset \<Rightarrow> string \<times> string fset" where
  "generateUniqueSlug baseSlug existingSet =
     (let uniqueSlug = slug_loop baseSlug existingSet baseSlug 1
      in (uniqueSlug, finsert uniqueSlug existingSet))"

lemma slug_loop_free: "u |\<notin>| S \<Longrightarrow> slug_loop b S u c = u"
  by (subst slug_loop.simps) simp

lemma slug_loop_taken: "u |\<in>| S \<Longrightarrow> slug_loop b S u c = slug_loop b S (candidate b c) (Suc c)"
  by (subst slug_loop.simps) simp

text \<open>
  Entered with the candidate numbered \<open>c\<close>, the loop stops at the first number from
  \<open>c\<close> on whose candidate is not in the set.
\<close>

lemma slug_loop_first_free:
  "\<exists>k\<ge>c. slug_loop b S (candidate b c) (Suc c) = candidate b k
      \<and> candidate b k |\<notin>| S \<and> (\<forall>j. c \<le> j \<and> j < k \<longrightarrow> candidate b j |\<in>| S)"
proof (induction "card (taken_from b S c)" arbitrary: c rule: less_induct)
  case less
  show ?case
  proof (cases "candidate b c |\<in>| S")
    case False
    then have "slug_loop b S (candidate b c) (Suc c) = candidate b c"
      by (rule slug_loop_free)
    with False show ?thesis by auto
  next
    case True
    from less [OF taken_from_step_in [OF True]]
    obtain k where k: "Suc c \<le> k"
      "slug_loop b S (candidate b (Suc c)) (Suc (Suc c)) = candidate b k"
      "candidate b k |\<notin>| S" "\<forall>j. Suc c \<le> j \<and> j < k \<longrightarrow> candidate b j |\<in>| S"
      by blast
    have "slug_loop b S (candidate b c) (Suc c) = candidate b k"
      using True k(2) by (simp add: slug_loop_taken)
    moreover have "\<forall>j. c \<le> j \<and> j < k \<longrightarrow> candidate b j |\<in>| S"
    proof (intro allI impI)
      fix j assume j: "c \<le> j \<and> j < k"
      show "candidate b j |\<in>| S"
      proof (cases "j = c")
        case True
        with \<open>candidate b c |\<in>| S\<close> show ?thesis by simp
      next
        case False
        with j have "Suc c \<le> j \<and> j < k" by simp
        with k(4) show ?thesis by blast
      qed
    qed
    ultimately show ?thesis using k(1,3) by (intro exI [of _ k]) simp
  qed
qed


lemma candidate_chair_1: "candidate ''chair'' (Suc 0) = ''chair-1''"
  by (simp add: candidate_def digit_def)

lemma candidate_chair_2: "candidate ''chair'' (Suc (Suc 0)) = ''chair-2''"
  by (simp add: candidate_def digit_def)

lemma chair_once:
  "generateUniqueSlug ''chair'' {|''chair''|} = (''chair-1'', {|''chair-1'', ''chair''|})"
proof -
  have "slug_loop ''chair'' {|''chair''|} ''chair'' 1
      = slug_loop ''chair'' {|''chair''|} ''chair-1'' (Suc 1)"
    by (simp add: slug_loop_taken candidate_chair_1)
  also have "\<dots> = ''chair-1''"
    by (rule slug_loop_free) simp
  finally show ?thesis by (simp add: generateUniqueSlug_def Let_def)
qed

lemma chair_twice:
  "generateUniqueSlug ''chair'' {|''chair-1'', ''chair''|}
     = (''chair-2'', {|''chair-2'', ''chair-1'', ''chair''|})"
proof -
  let ?S = "{|''chair-1'', ''chair''|}"
  have "slug_loop ''chair'' ?S ''chair'' 1 = slug_loop ''chair'' ?S ''chair-1'' (Suc 1)"
    by (simp add: slug_loop_taken candidate_chair_1)
  also have "\<dots> = slug_loop ''chair'' ?S ''chair-2'' (Suc (Suc 1))"
    by (simp add: slug_loop_taken candidate_chair_2)
  also have "\<dots> = ''chair-2''"
    by (rule slug_loop_free) simp
  finally show ?thesis by (simp add: generateUniqueSlug_def Let_def)
qed

text \<open>
  C7. \<open>generateUniqueSlug base known\<close> returns \<open>base\<close> and adds it to the set when
  \<open>base\<close> is not in \<open>known\<close>; otherwise it returns the first of \<open>base-1\<close>,
  \<open>base-2\<close>, ... that is not in the set, and adds that one. So
  \<open>generateUniqueSlug ''chair'' {chair}\<close> is \<open>chair-1\<close>, and a second call against the
  updated set gives \<open>chair-2\<close>. The function returns on every input (it is total).
\<close>

theorem generateUniqueSlug_first_free:
  "(baseSlug |\<notin>| known \<longrightarrow>
      generateUniqueSlug baseSlug known = (baseSlug, finsert baseSlug known))
   \<and> (baseSlug |\<in>| known \<longrightarrow>
      (\<exists>k\<ge>1. generateUniqueSlug baseSlug known
                = (candidate baseSlug k, finsert (candidate baseSlug k) known)
            \<and> candidate baseSlug k |\<notin>| known
            \<and> (\<forall>j. 1 \<le> j \<and> j < k \<longrightarrow> candidate baseSlug j |\<in>| known)))
   \<and> generateUniqueSlug ''chair'' {|''chair''|} = (''chair-1'', {|''chair-1'', ''chair''|})
   \<and> generateUniqueSlug ''chair'' (snd (generateUniqueSlug ''chair'' {|''chair''|}))
        = (''chair-2'', {|''chair-2'', ''chair-1'', ''chair''|})"
proof (intro conjI impI)
  assume "baseSlug |\<notin>| known"
  then show "generateUniqueSlug baseSlug known = (baseSlug, finsert baseSlug known)"
    by (simp add: generateUniqueSlug_def slug_loop_free Let_def)
next
  assume taken: "baseSlug |\<in>| known"
  obtain k where k: "1 \<le> k"
    "slug_loop baseSlug known (candidate baseSlug 1) (Suc 1) = candidate baseSlug k"
    "candidate baseSlug k |\<notin>| known"
    "\<forall>j. 1 \<le> j \<and> j < k \<longrightarrow> candidate baseSlug j |\<in>| known"
    using slug_loop_first_free [of 1 baseSlug known] by blast
  have "slug_loop baseSlug known baseSlug 1 = candidate baseSlug k"
    using taken k(2) by (simp add: slug_loop_taken)
  then have "generateUniqueSlug baseSlug known
      = (candidate baseSlug k, finsert (candidate baseSlug k) known)"
    by (simp add: generateUniqueSlug_def Let_def)
  with k(1,3,4) show "\<exists>k\<ge>1. generateUniqueSlug baseSlug known
                = (candidate baseSlug k, finsert (candidate baseSlug k) known)
            \<and> candidate baseSlug k |\<notin>| known
            \<and> (\<forall>j. 1 \<le> j \<and> j < k \<longrightarrow> candidate baseSlug j |\<in>| known)"
    by blast
next
  show "generateUniqueSlug ''chair'' {|''chair''|} = (''chair-1'', {|''chair-1'', ''chair''|})"
    by (rule chair_once)
next
  show "generateUniqueSlug ''chair'' (snd (generateUniqueSlug ''chair'' {|''chair''|}))
        = (''chair-2'', {|''chair-2'', ''chair-1'', ''chair''|})"
    by (simp add: chair_once chair_twice)
qed

theorem generateUniqueSlug_first_free_witness:
  "''table'' |\<notin>| {|''chair''|}
   \<and> generateUniqueSlug ''table'' {|''chair''|} = (''table'', {|''table'', ''chair''|})
   \<and> ''chair'' |\<in>| {|''chair''|}
   \<and> (\<exists>k\<ge>1. generateUniqueSlug ''chair'' {|''chair''|}
                = (candidate ''chair'' k, finsert (candidate ''chair'' k) {|''chair''|})
            \<and> candidate ''chair'' k |\<notin>| {|''chair''|})"
proof -
  have a: "''table'' |\<notin>| {|''chair''|}" by simp
  have b: "''chair'' |\<in>| {|''chair''|}" by simp
  from a generateUniqueSlug_first_free [of "''table''" "{|''chair''|}"]
  have "generateUniqueSlug ''table'' {|''chair''|} = (''table'', {|''table'', ''chair''|})"
    by blast
  moreover from b generateUniqueSlug_first_free [of "''chair''" "{|''chair''|}"]
  have "\<exists>k\<ge>1. generateUniqueSlug ''chair'' {|''chair''|}
                = (candidate ''chair'' k, finsert (candidate ''chair'' k) {|''chair''|})
            \<and> candidate ''chair'' k |\<notin>| {|''chair''|}"
    by blast
  ultimately show ?thesis using a b by blast
qed


section \<open>Rows, jobs and the world of the batch worker\<close>

text \<open>
  The worker (\<^verbatim>\<open>clone-user-products\<close>) reads rows with \<^verbatim>\<open>select('*')\<close> and treats
  them as untyped objects. A row maps a column name to its cell; \<open>None\<close> is JavaScript's
  \<^verbatim>\<open>undefined\<close> (the property is absent). Numbers are copied, never computed with.
\<close>

datatype cell = Null | Text string | Number int | Flag bool | Items "cell list"

type_synonym row = "string \<Rightarrow> cell option"

fun truthy :: "cell option \<Rightarrow> bool" where
  "truthy None = False"
| "truthy (Some Null) = False"
| "truthy (Some (Text s)) = (s \<noteq> [])"
| "truthy (Some (Number n)) = (n \<noteq> 0)"
| "truthy (Some (Flag b)) = b"
| "truthy (Some (Items xs)) = True"

text \<open>
  Table \<^verbatim>\<open>clone_jobs\<close> (migration \<^verbatim>\<open>create_clone_jobs_table\<close>): the status column
  is constrained to four values; \<^verbatim>\<open>completed_at\<close> is nullable with no default. Times are
  readings of the world's clock.
\<close>

datatype job_status = Pending | Processing | Completed | Failed

record clone_job =
  status :: job_status
  total_products :: nat
  processed_count :: nat
  error_message :: "string option"
  completed_at :: "nat option"

text \<open>The object literal of an \<^verbatim>\<open>update({...})\<close> call: the keys it carries.\<close>

record job_update =
  set_status :: "job_status option"
  set_completed_at :: "nat option"
  set_processed_count :: "nat option"

definition apply_update :: "job_update \<Rightarrow> clone_job \<Rightarrow> clone_job" where
  "apply_update u j =
     j\<lparr>status := (case set_status u of None \<Rightarrow> status j | Some s \<Rightarrow> s),
       completed_at := (case set_completed_at u of None \<Rightarrow> completed_at j | Some t \<Rightarrow> Some t),
       processed_count :=
         (case set_processed_count u of None \<Rightarrow> processed_count j | Some n \<Rightarrow> n)\<rparr>"

record CloneProductsRequest =
  jobId :: string
  sourceUserId :: string
  targetUserId :: string
  offset :: "nat option"
  limit :: nat

text \<open>
  An HTTP request: its method and its JSON body (\<open>None\<close> when \<^verbatim>\<open>req.json()\<close> throws).
  A missing \<^verbatim>\<open>offset\<close> is \<open>None\<close>; a missing or zero \<^verbatim>\<open>limit\<close> is \<open>0\<close>, a missing
  string is empty: each is falsy in the handler's check. Offsets and limits are natural
  numbers, as the worker computes them (\<^verbatim>\<open>offset + limit\<close>) from those it is given.
\<close>

record request =
  http_method :: string
  json :: "CloneProductsRequest option"

datatype body =
    NoBody
  | ErrorBody string
  | FailureBody string
  | CloningCompleted
  | Cloned nat nat bool

datatype response = Response nat body

text \<open>
  What an observer of the job table and of the network sees, in the order it happens:
  an update issued on \<^verbatim>\<open>clone_jobs\<close> (with the offset of the invocation that issued
  it, and the job id), the request for the next batch being sent, and a response being
  returned to a request.
\<close>

datatype event =
    JobUpdated nat string job_update
  | Dispatched CloneProductsRequest
  | Responded request response

datatype fault = NoFault | InsertFails | ThrowsBeforeInsert | ThrowsAfterInsert

text \<open>
  The world: the three tables, the trace, and what the worker cannot decide itself.
  \<open>products\<close> lists the rows in the order in which the database returns them to a query
  that has no order clause. \<open>item_fault\<close> says how the cloning of a source row goes wrong,
  \<open>page_error\<close> whether the page query at an offset fails, \<open>transfer\<close> the public URL
  of the copy of an image (\<open>None\<close> when the download or the upload fails),
  \<open>dispatch_fails\<close> whether the request for the next batch is rejected before delivery.
\<close>

record world =
  products :: "row list"
  product_images :: "row list"
  clone_jobs :: "string \<Rightarrow> clone_job option"
  trace :: "event list"
  clock :: nat
  new_id :: "nat \<Rightarrow> string"
  page_error :: "nat \<Rightarrow> string option"
  item_fault :: "row \<Rightarrow> fault"
  transfer :: "string \<Rightarrow> string \<Rightarrow> string option"
  dispatch_fails :: "CloneProductsRequest \<Rightarrow> bool"

text \<open>
  \<^verbatim>\<open>from('products').select('*').eq('user_id', sourceUserId).range(from, to)\<close>:
  the rows of the account, positions \<open>from\<close> to \<open>to\<close> inclusive. The query names no
  order, so the positions are those of \<open>products\<close>.
\<close>

definition select_products :: "world \<Rightarrow> string \<Rightarrow> nat \<Rightarrow> nat \<Rightarrow> string + row list" where
  "select_products w userId from to =
     (case page_error w from of
        Some message \<Rightarrow> Inl message
      | None \<Rightarrow>
          Inr (take (to + 1 - from)
                 (drop from (filter (\<lambda>r. r ''user_id'' = Some (Text userId)) (products w)))))"

text \<open>
  \<^verbatim>\<open>from('clone_jobs').update(u).eq('id', jobId)\<close>: changes the row when there is one;
  the worker never looks at the result.
\<close>

definition update_job :: "nat \<Rightarrow> string \<Rightarrow> job_update \<Rightarrow> world \<Rightarrow> world" where
  "update_job invocation jid u w =
     w\<lparr>clone_jobs :=
         (case clone_jobs w jid of
            None \<Rightarrow> clone_jobs w
          | Some j \<Rightarrow> (clone_jobs w)(jid \<mapsto> apply_update u j)),
       trace := trace w @ [JobUpdated invocation jid u]\<rparr>"

definition mark_completed :: "world \<Rightarrow> job_update" where
  "mark_completed w =
     \<lparr>set_status = Some Completed, set_completed_at = Some (clock w),
      set_processed_count = None\<rparr>"

definition mark_processing :: job_update where
  "mark_processing =
     \<lparr>set_status = Some Processing, set_completed_at = None, set_processed_count = None\<rparr>"

definition progress :: "nat \<Rightarrow> job_update" where
  "progress newProcessedCount =
     \<lparr>set_status = None, set_completed_at = None,
      set_processed_count = Some newProcessedCount\<rparr>"


section \<open>processBatch\<close>

text \<open>
  The object literal handed to \<^verbatim>\<open>from('products').insert({...})\<close>, key by key in the
  order of the source. A key whose value is \<^verbatim>\<open>undefined\<close> is dropped when the object
  is serialised.
\<close>

definition insert_payload :: "string \<Rightarrow> row \<Rightarrow> (string \<times> cell option) list" where
  "insert_payload target product =
     [(''user_id'', Some (Text target)),
      (''title'', product ''title''),
      (''description'', product ''description''),
      (''price'', product ''price''),
      (''discounted_price'', product ''discounted_price''),
      (''status'', product ''status''),
      (''category'', product ''category''),
      (''brand'', product ''brand''),
      (''model'', product ''model''),
      (''gender'', product ''gender''),
      (''condition'', product ''condition''),
      (''video_url'', product ''video_url''),
      (''featured_offer_price'', product ''featured_offer_price''),
      (''featured_offer_installment'', product ''featured_offer_installment''),
      (''featured_offer_description'', product ''featured_offer_description''),
      (''is_starting_price'', product ''is_starting_price''),
      (''short_description'', product ''short_description''),
      (''is_visible_on_storefront'', product ''is_visible_on_storefront''),
      (''external_checkout_url'', product ''external_checkout_url''),
      (''colors'', product ''colors''),
      (''sizes'', product ''sizes''),
      (''display_order'', product ''display_order'')]"

definition object :: "(string \<times> cell option) list \<Rightarrow> row" where
  "object kvs column = (case map_of kvs column of None \<Rightarrow> None | Some v \<Rightarrow> v)"

text \<open>
  \<^verbatim>\<open>insert(payload).select().single()\<close>: the database stores the payload, generates the
  identity and the two timestamps, and returns the new row.
\<close>

definition insert_product :: "(string \<times> cell option) list \<Rightarrow> world \<Rightarrow> row \<times> world" where
  "insert_product payload w =
     (let newProduct = (object payload)
            (''id'' \<mapsto> Text (new_id w (length (products w))),
             ''created_at'' \<mapsto> Number (int (clock w)),
             ''updated_at'' \<mapsto> Number (int (clock w)))
      in (newProduct, w\<lparr>products := products w @ [newProduct]\<rparr>))"

text \<open>
  One element of \<^verbatim>\<open>imagePromises\<close>: the value the promise resolves to (the new public
  URL when the image is the featured one, \<^verbatim>\<open>null\<close> otherwise and after any failure)
  and the \<^verbatim>\<open>product_images\<close> rows it inserts.
\<close>

definition copy_image :: "world \<Rightarrow> row \<Rightarrow> row \<Rightarrow> string option \<times> row list" where
  "copy_image w newProduct img =
     (case (img ''url'', newProduct ''id'') of
        (Some (Text url), Some (Text newId)) \<Rightarrow>
          (case transfer w newId url of
             None \<Rightarrow> (None, [])
           | Some publicUrl \<Rightarrow>
               (if truthy (img ''is_featured'') then Some publicUrl else None,
                [object [(''product_id'', Some (Text newId)), (''url'', Some (Text publicUrl)),
                         (''is_featured'', img ''is_featured'')]]))
      | _ \<Rightarrow> (None, []))"

definition CONCURRENT_IMAGE_LIMIT :: nat where
  "CONCURRENT_IMAGE_LIMIT = 5"

definition slice :: "nat \<Rightarrow> nat \<Rightarrow> 'a list \<Rightarrow> 'a list" where
  "slice i j xs = take (j - i) (drop i xs)"

text \<open>
  \<^verbatim>\<open>imageLimiter\<close>: the batches the loop takes off \<^verbatim>\<open>imagePromises\<close>, each awaited with
  \<^verbatim>\<open>Promise.all\<close> before the next is taken, and the results pushed in order.
  \<^verbatim>\<open>
  for (let i = 0; i < imagePromises.length; i += CONCURRENT_IMAGE_LIMIT) {
    const batch = imagePromises.slice(i, i + CONCURRENT_IMAGE_LIMIT);
    const batchResults = await Promise.all(batch);
    results.push(...batchResults);
  }
  \<close>
\<close>

function batches_from :: "nat \<Rightarrow> 'a list \<Rightarrow> 'a list list" where
  "batches_from i imagePromises =
     (if i < length imagePromises
      then slice i (i + CONCURRENT_IMAGE_LIMIT) imagePromises
             # batches_from (i + CONCURRENT_IMAGE_LIMIT) imagePromises
      else [])"
  by pat_completeness auto
termination
  by (relation "measure (\<lambda>(i, imagePromises). length imagePromises - i)")
     (simp_all add: CONCURRENT_IMAGE_LIMIT_def)

declare batches_from.simps [simp del]

definition imageLimiter :: "'a list \<Rightarrow> 'a list" where
  "imageLimiter imagePromises = concat (batches_from 0 imagePromises)"

definition set_featured_image :: "cell option \<Rightarrow> string \<Rightarrow> row \<Rightarrow> row" where
  "set_featured_image productId url r =
     (if r ''id'' = productId then r(''featured_image_url'' \<mapsto> Text url) else r)"

definition copy_images :: "row \<Rightarrow> row \<Rightarrow> world \<Rightarrow> world" where
  "copy_images product newProduct w =
     (let productImages =
            (case product ''id'' of
               None \<Rightarrow> []
             | Some productId \<Rightarrow>
                 filter (\<lambda>img. img ''product_id'' = Some productId) (product_images w))
      in if productImages = [] then w
         else
           let imagePromises = map (copy_image w newProduct) productImages;
               w1 = w\<lparr>product_images := product_images w @ concat (map snd imagePromises)\<rparr>;
               imageFeaturedUrls = imageLimiter (map fst imagePromises)
           in case find (\<lambda>url. url \<noteq> None) imageFeaturedUrls of
                Some (Some newFeaturedImageUrl) \<Rightarrow>
                  if newFeaturedImageUrl \<noteq> []
                  then w1\<lparr>products :=
                         map (set_featured_image (newProduct ''id'') newFeaturedImageUrl)
                           (products w1)\<rparr>
                  else w1
              | _ \<Rightarrow> w1)"

text \<open>
  The loop over the page, with its two counters. An insert error is counted and the loop
  continues; whatever is thrown inside the \<^verbatim>\<open>try\<close> block is caught, counted, and the loop
  continues. A throw is placed before the insert or after it.
\<close>

fun process_items :: "row list \<Rightarrow> string \<Rightarrow> nat \<times> nat \<Rightarrow> world \<Rightarrow> (nat \<times> nat) \<times> world" where
  "process_items [] target (successCount, errorCount) w =
     ((successCount, errorCount), w)"
| "process_items (product # rest) target (successCount, errorCount) w =
     (case item_fault w product of
        ThrowsBeforeInsert \<Rightarrow>
          process_items rest target (successCount, errorCount + 1) w
      | InsertFails \<Rightarrow>
          process_items rest target (successCount, errorCount + 1) w
      | ThrowsAfterInsert \<Rightarrow>
          process_items rest target (successCount, errorCount + 1)
            (snd (insert_product (insert_payload target product) w))
      | NoFault \<Rightarrow>
          (let inserted = insert_product (insert_payload target product) w
           in process_items rest target (successCount + 1, errorCount)
                (copy_images product (fst inserted) (snd inserted))))"

definition processBatch ::
  "row list \<Rightarrow> string \<Rightarrow> string \<Rightarrow> string \<Rightarrow> world \<Rightarrow> (nat \<times> nat) \<times> world" where
  "processBatch page source target jid w =
     process_items page target (0, 0) w"


section \<open>The handler of clone-user-products\<close>

text \<open>
  One invocation either returns its response, or has its response ready and first awaits
  the request that starts the next batch (\<^verbatim>\<open>await fetch(invokeUrl, ...)\<close>).
\<close>

datatype outcome = Return response | AwaitDispatch CloneProductsRequest response

text \<open>
  The handler from the page query on, for a request that passed the checks, at offset
  \<open>off\<close>. A failed page query is thrown and caught by the outer \<^verbatim>\<open>catch\<close>, which
  answers 500 and writes nothing.
\<close>

definition batch :: "nat \<Rightarrow> CloneProductsRequest \<Rightarrow> world \<Rightarrow> outcome \<times> world" where
  "batch off b w =
     (case select_products w (sourceUserId b) off (off + limit b - 1) of
        Inl message \<Rightarrow>
          (Return (Response 500 (FailureBody (''Error fetching products: '' @ message))), w)
      | Inr page \<Rightarrow>
          if page = []
          then (Return (Response 200 CloningCompleted),
                update_job off (jobId b) (mark_completed w) w)
          else
            let w1 = update_job off (jobId b) mark_processing w;
                counted = processBatch page (sourceUserId b) (targetUserId b) (jobId b) w1;
                successCount = fst (fst counted);
                errorCount = snd (fst counted);
                w2 = snd counted;
                newProcessedCount =
                  (case clone_jobs w2 (jobId b) of
                     None \<Rightarrow> 0
                   | Some jobData \<Rightarrow> processed_count jobData) + successCount;
                w3 = update_job off (jobId b) (progress newProcessedCount) w2;
                hasMore = (length page = limit b);
                answer = Response 200 (Cloned successCount errorCount hasMore)
            in if hasMore
               then (AwaitDispatch (b\<lparr>offset := Some (off + limit b)\<rparr>) answer, w3)
               else (Return answer, update_job off (jobId b) (mark_completed w3) w3))"

text \<open>
  The handler up to the page query. Whatever is thrown inside the \<^verbatim>\<open>try\<close> block is
  answered with status 500 and the message of the error as details (for a body that
  does not parse, the message of the parser).
\<close>

definition handle :: "request \<Rightarrow> world \<Rightarrow> outcome \<times> world" where
  "handle req w =
     (if http_method req = ''OPTIONS'' then (Return (Response 200 NoBody), w)
      else if http_method req \<noteq> ''POST''
      then (Return (Response 405 (ErrorBody ''Method not allowed'')), w)
      else
        case json req of
          None \<Rightarrow> (Return (Response 500 (FailureBody ''Unexpected end of JSON input'')), w)
        | Some b \<Rightarrow>
            (case offset b of
               None \<Rightarrow> (Return (Response 400 (ErrorBody ''Missing required fields'')), w)
             | Some off \<Rightarrow>
                 if jobId b = [] \<or> sourceUserId b = [] \<or> targetUserId b = [] \<or> limit b = 0
                 then (Return (Response 400 (ErrorBody ''Missing required fields'')), w)
                 else batch off b w))"

definition respond :: "request \<Rightarrow> response \<Rightarrow> world \<Rightarrow> world" where
  "respond req answer w = w\<lparr>trace := trace w @ [Responded req answer]\<rparr>"

definition dispatch :: "CloneProductsRequest \<Rightarrow> world \<Rightarrow> world" where
  "dispatch next w = w\<lparr>trace := trace w @ [Dispatched next]\<rparr>"

definition post :: "CloneProductsRequest \<Rightarrow> request" where
  "post b = \<lparr>http_method = ''POST'', json = Some b\<rparr>"

text \<open>
  A whole run: an invocation and, through the awaited dispatch, every invocation that
  follows from it. The dispatching invocation resumes, and responds, when the fetch
  settles: when the next invocation has responded, or at once when the request is
  rejected (caught and logged as a warning). A chain that never ends has no result.
\<close>

partial_function (option) serve :: "request \<Rightarrow> world \<Rightarrow> (response \<times> world) option" where
  "serve req w =
     (case handle req w of
        (Return answer, w1) \<Rightarrow> Some (answer, respond req answer w1)
      | (AwaitDispatch next answer, w1) \<Rightarrow>
          if dispatch_fails w1 next
          then Some (answer, respond req answer (dispatch next w1))
          else
            Option.bind (serve (post next) (dispatch next w1))
              (\<lambda>nested. Some (answer, respond req answer (snd nested))))"


section \<open>Facts about processBatch\<close>

lemma insert_product_oracles [simp]:
  "item_fault (snd (insert_product payload w)) = item_fault w"
  "clone_jobs (snd (insert_product payload w)) = clone_jobs w"
  "trace (snd (insert_product payload w)) = trace w"
  "page_error (snd (insert_product payload w)) = page_error w"
  "dispatch_fails (snd (insert_product payload w)) = dispatch_fails w"
  "clock (snd (insert_product payload w)) = clock w"
  by (simp_all add: insert_product_def Let_def)

lemma insert_product_products [simp]:
  "products (snd (insert_product payload w)) = products w @ [fst (insert_product payload w)]"
  by (simp add: insert_product_def Let_def)

lemma copy_images_oracles [simp]:
  "item_fault (copy_images product newProduct w) = item_fault w"
  "clone_jobs (copy_images product newProduct w) = clone_jobs w"
  "trace (copy_images product newProduct w) = trace w"
  "page_error (copy_images product newProduct w) = page_error w"
  "dispatch_fails (copy_images product newProduct w) = dispatch_fails w"
  "clock (copy_images product newProduct w) = clock w"
  by (simp_all add: copy_images_def Let_def split: option.splits)

lemma copy_images_length [simp]:
  "length (products (copy_images product newProduct w)) = length (products w)"
  by (simp add: copy_images_def Let_def split: option.splits)

definition cloned_ok :: "world \<Rightarrow> row \<Rightarrow> bool" where
  "cloned_ok w product = (item_fault w product = NoFault)"

definition reaches_insert :: "world \<Rightarrow> row \<Rightarrow> bool" where
  "reaches_insert w product =
     (item_fault w product = NoFault \<or> item_fault w product = ThrowsAfterInsert)"

lemma process_items_counts:
  "fst (process_items page target (s, e) w)
     = (s + length (filter (cloned_ok w) page),
        e + length (filter (\<lambda>product. \<not> cloned_ok w product) page))"
proof (induction page arbitrary: s e w)
  case Nil
  show ?case by simp
next
  case (Cons product rest)
  show ?case
  proof (cases "item_fault w product")
    case NoFault
    then show ?thesis
      using Cons.IH [of "s + 1" e
          "copy_images product (fst (insert_product (insert_payload target product) w))
             (snd (insert_product (insert_payload target product) w))"]
      by (simp add: cloned_ok_def Let_def)
  next
    case InsertFails
    then show ?thesis using Cons.IH [of s "e + 1" w] by (simp add: cloned_ok_def)
  next
    case ThrowsBeforeInsert
    then show ?thesis using Cons.IH [of s "e + 1" w] by (simp add: cloned_ok_def)
  next
    case ThrowsAfterInsert
    then show ?thesis
      using Cons.IH [of s "e + 1" "snd (insert_product (insert_payload target product) w)"]
      by (simp add: cloned_ok_def)
  qed
qed

lemma process_items_inserts:
  "length (products (snd (process_items page target acc w)))
     = length (products w) + length (filter (reaches_insert w) page)"
proof (induction page arbitrary: acc w)
  case Nil
  show ?case by (cases acc) simp
next
  case (Cons product rest)
  obtain s e where acc: "acc = (s, e)" by (cases acc)
  show ?case
  proof (cases "item_fault w product")
    case NoFault
    then show ?thesis
      using Cons.IH [of "(s + 1, e)"
          "copy_images product (fst (insert_product (insert_payload target product) w))
             (snd (insert_product (insert_payload target product) w))"]
      by (simp add: acc reaches_insert_def Let_def)
  next
    case InsertFails
    then show ?thesis using Cons.IH [of "(s, e + 1)" w] by (simp add: acc reaches_insert_def)
  next
    case ThrowsBeforeInsert
    then show ?thesis using Cons.IH [of "(s, e + 1)" w] by (simp add: acc reaches_insert_def)
  next
    case ThrowsAfterInsert
    then show ?thesis
      using Cons.IH [of "(s, e + 1)" "snd (insert_product (insert_payload target product) w)"]
      by (simp add: acc reaches_insert_def)
  qed
qed

lemma process_items_frame:
  "clone_jobs (snd (process_items page target acc w)) = clone_jobs w
   \<and> trace (snd (process_items page target acc w)) = trace w
   \<and> page_error (snd (process_items page target acc w)) = page_error w
   \<and> dispatch_fails (snd (process_items page target acc w)) = dispatch_fails w
   \<and> item_fault (snd (process_items page target acc w)) = item_fault w
   \<and> clock (snd (process_items page target acc w)) = clock w"
proof (induction page arbitrary: acc w)
  case Nil
  show ?case by (cases acc) simp
next
  case (Cons product rest)
  obtain s e where acc: "acc = (s, e)" by (cases acc)
  show ?case
  proof (cases "item_fault w product")
    case NoFault
    then show ?thesis
      using Cons.IH [of "(s + 1, e)"
          "copy_images product (fst (insert_product (insert_payload target product) w))
             (snd (insert_product (insert_payload target product) w))"]
      by (simp add: acc Let_def)
  next
    case InsertFails
    then show ?thesis using Cons.IH [of "(s, e + 1)" w] by (simp add: acc)
  next
    case ThrowsBeforeInsert
    then show ?thesis using Cons.IH [of "(s, e + 1)" w] by (simp add: acc)
  next
    case ThrowsAfterInsert
    then show ?thesis
      using Cons.IH [of "(s, e + 1)" "snd (insert_product (insert_payload target product) w)"]
      by (simp add: acc)
  qed
qed

lemma processBatch_frame [simp]:
  "clone_jobs (snd (processBatch page source target jid w)) = clone_jobs w"
  "trace (snd (processBatch page source target jid w)) = trace w"
  "page_error (snd (processBatch page source target jid w)) = page_error w"
  "dispatch_fails (snd (processBatch page source target jid w)) = dispatch_fails w"
  "item_fault (snd (processBatch page source target jid w)) = item_fault w"
  "clock (snd (processBatch page source target jid w)) = clock w"
  using process_items_frame [of page target "(0, 0)" w]
  by (simp_all add: processBatch_def)

text \<open>
  C3. For every page, \<^verbatim>\<open>processBatch\<close> counts each row once: a row whose insert fails or
  whose processing throws adds one to the error counter, every other row (also one that
  follows a failing row) adds one to the success counter, so the two counters add up to
  the length of the page. Every row that reaches its insert is inserted, whatever
  happened to the rows before it.
\<close>

theorem processBatch_isolates_failures:
  "fst (processBatch page source target jid w)
     = (length (filter (cloned_ok w) page),
        length (filter (\<lambda>product. \<not> cloned_ok w product) page))
   \<and> fst (fst (processBatch page source target jid w))
       + snd (fst (processBatch page source target jid w)) = length page
   \<and> length (products (snd (processBatch page source target jid w)))
       = length (products w) + length (filter (reaches_insert w) page)"
proof -
  have counts: "fst (processBatch page source target jid w)
     = (length (filter (cloned_ok w) page),
        length (filter (\<lambda>product. \<not> cloned_ok w product) page))"
    using process_items_counts [of page target 0 0 w] by (simp add: processBatch_def)
  have "length (filter (cloned_ok w) page)
       + length (filter (\<lambda>product. \<not> cloned_ok w product) page) = length page"
    by (rule sum_length_filter_compl)
  with counts have total: "fst (fst (processBatch page source target jid w))
       + snd (fst (processBatch page source target jid w)) = length page"
    by simp
  have "length (products (snd (processBatch page source target jid w)))
       = length (products w) + length (filter (reaches_insert w) page)"
    by (simp add: processBatch_def process_items_inserts)
  with counts total show ?thesis by blast
qed


section \<open>One invocation\<close>

text \<open>The events an invocation adds to the trace, and the statuses it writes.\<close>

definition new_events :: "request \<Rightarrow> world \<Rightarrow> event list" where
  "new_events req w = drop (length (trace w)) (trace (snd (handle req w)))"

fun written_status :: "event \<Rightarrow> job_status option" where
  "written_status (JobUpdated invocation jid u) = set_status u"
| "written_status (Dispatched next) = None"
| "written_status (Responded req answer) = None"

fun written_timestamp :: "event \<Rightarrow> nat option" where
  "written_timestamp (JobUpdated invocation jid u) = set_completed_at u"
| "written_timestamp (Dispatched next) = None"
| "written_timestamp (Responded req answer) = None"

text \<open>The world once the page is processed and the new processed count is stored.\<close>

definition counted :: "CloneProductsRequest \<Rightarrow> nat \<Rightarrow> row list \<Rightarrow> world \<Rightarrow> (nat \<times> nat) \<times> world" where
  "counted b off page w =
     processBatch page (sourceUserId b) (targetUserId b) (jobId b)
       (update_job off (jobId b) mark_processing w)"

definition stored_count :: "CloneProductsRequest \<Rightarrow> nat \<Rightarrow> row list \<Rightarrow> world \<Rightarrow> nat" where
  "stored_count b off page w =
     (case clone_jobs (snd (counted b off page w)) (jobId b) of
        None \<Rightarrow> 0
      | Some jobData \<Rightarrow> processed_count jobData) + fst (fst (counted b off page w))"

definition after_progress :: "CloneProductsRequest \<Rightarrow> nat \<Rightarrow> row list \<Rightarrow> world \<Rightarrow> world" where
  "after_progress b off page w =
     update_job off (jobId b) (progress (stored_count b off page w)) (snd (counted b off page w))"

definition accepted :: "request \<Rightarrow> CloneProductsRequest \<Rightarrow> nat \<Rightarrow> bool" where
  "accepted req b off =
     (http_method req = ''POST'' \<and> json req = Some b \<and> offset b = Some off
      \<and> jobId b \<noteq> [] \<and> sourceUserId b \<noteq> [] \<and> targetUserId b \<noteq> [] \<and> limit b \<noteq> 0)"

definition page_of :: "world \<Rightarrow> CloneProductsRequest \<Rightarrow> nat \<Rightarrow> string + row list" where
  "page_of w b off = select_products w (sourceUserId b) off (off + limit b - 1)"

lemma handle_accepted: "accepted req b off \<Longrightarrow> handle req w = batch off b w"
  by (simp add: accepted_def handle_def)

lemma handle_not_accepted:
  "\<forall>b off. \<not> accepted req b off \<Longrightarrow> snd (handle req w) = w"
proof -
  assume no: "\<forall>b off. \<not> accepted req b off"
  show ?thesis
  proof (cases "json req")
    case None
    then show ?thesis by (simp add: handle_def)
  next
    case (Some b)
    show ?thesis
    proof (cases "offset b")
      case None
      with Some show ?thesis by (simp add: handle_def)
    next
      case (Some off)
      with \<open>json req = Some b\<close> no [rule_format, of b off] show ?thesis
        by (auto simp: handle_def accepted_def)
    qed
  qed
qed

lemma batch_page_error:
  "page_of w b off = Inl message \<Longrightarrow>
   batch off b w
     = (Return (Response 500 (FailureBody (''Error fetching products: '' @ message))), w)"
  by (simp add: batch_def page_of_def)

lemma batch_empty:
  "page_of w b off = Inr [] \<Longrightarrow>
   batch off b w
     = (Return (Response 200 CloningCompleted), update_job off (jobId b) (mark_completed w) w)"
  by (simp add: batch_def page_of_def)

lemma batch_full:
  "page_of w b off = Inr page \<Longrightarrow> page \<noteq> [] \<Longrightarrow> length page = limit b \<Longrightarrow>
   batch off b w
     = (AwaitDispatch (b\<lparr>offset := Some (off + limit b)\<rparr>)
          (Response 200 (Cloned (fst (fst (counted b off page w)))
                           (snd (fst (counted b off page w))) True)),
        after_progress b off page w)"
  by (simp add: batch_def page_of_def Let_def counted_def stored_count_def after_progress_def)

lemma batch_last:
  "page_of w b off = Inr page \<Longrightarrow> page \<noteq> [] \<Longrightarrow> length page \<noteq> limit b \<Longrightarrow>
   batch off b w
     = (Return (Response 200 (Cloned (fst (fst (counted b off page w)))
                                (snd (fst (counted b off page w))) False)),
        update_job off (jobId b) (mark_completed (after_progress b off page w))
          (after_progress b off page w))"
  by (simp add: batch_def page_of_def Let_def counted_def stored_count_def after_progress_def)

lemma page_is_short: "page_of w b off = Inr page \<Longrightarrow> limit b \<noteq> 0 \<Longrightarrow> length page \<le> limit b"
  by (auto simp: page_of_def select_products_def split: option.splits)

lemma update_job_trace [simp]:
  "trace (update_job invocation jid u w) = trace w @ [JobUpdated invocation jid u]"
  by (simp add: update_job_def)

lemma update_job_frame [simp]:
  "products (update_job invocation jid u w) = products w"
  "product_images (update_job invocation jid u w) = product_images w"
  "page_error (update_job invocation jid u w) = page_error w"
  "item_fault (update_job invocation jid u w) = item_fault w"
  "dispatch_fails (update_job invocation jid u w) = dispatch_fails w"
  "clock (update_job invocation jid u w) = clock w"
  "new_id (update_job invocation jid u w) = new_id w"
  "transfer (update_job invocation jid u w) = transfer w"
  by (simp_all add: update_job_def)

lemma counted_trace [simp]:
  "trace (snd (counted b off page w)) = trace w @ [JobUpdated off (jobId b) mark_processing]"
  by (simp add: counted_def)

lemma after_progress_trace [simp]:
  "trace (after_progress b off page w)
     = trace w @ [JobUpdated off (jobId b) mark_processing,
                  JobUpdated off (jobId b) (progress (stored_count b off page w))]"
  by (simp add: after_progress_def)

text \<open>The events of an invocation, branch by branch.\<close>

lemma new_events_cases:
  "new_events req w =
     (case json req of
        None \<Rightarrow> []
      | Some b \<Rightarrow>
          (case offset b of
             None \<Rightarrow> []
           | Some off \<Rightarrow>
               if \<not> accepted req b off then []
               else
                 (case page_of w b off of
                    Inl message \<Rightarrow> []
                  | Inr page \<Rightarrow>
                      if page = [] then [JobUpdated off (jobId b) (mark_completed w)]
                      else if length page = limit b
                      then [JobUpdated off (jobId b) mark_processing,
                            JobUpdated off (jobId b) (progress (stored_count b off page w))]
                      else [JobUpdated off (jobId b) mark_processing,
                            JobUpdated off (jobId b) (progress (stored_count b off page w)),
                            JobUpdated off (jobId b)
                              (mark_completed (after_progress b off page w))])))"
proof (cases "\<exists>b off. accepted req b off")
  case False
  then have same: "snd (handle req w) = w" by (simp add: handle_not_accepted)
  from False show ?thesis
    by (simp add: new_events_def same split: option.splits)
next
  case True
  then obtain b off where acc: "accepted req b off" by blast
  then have j: "json req = Some b" and o: "offset b = Some off"
    by (simp_all add: accepted_def)
  have h: "handle req w = batch off b w" using acc by (rule handle_accepted)
  show ?thesis
  proof (cases "page_of w b off")
    case (Inl message)
    then show ?thesis using acc
      by (simp add: new_events_def h j o batch_page_error)
  next
    case (Inr page)
    show ?thesis
    proof (cases "page = []")
      case True
      with Inr show ?thesis using acc
        by (simp add: new_events_def h j o batch_empty)
    next
      case False
      show ?thesis
      proof (cases "length page = limit b")
        case True
        with Inr False show ?thesis using acc
          by (simp add: new_events_def h j o batch_full)
      next
        case short: False
        with Inr False show ?thesis using acc
          by (simp add: new_events_def h j o batch_last)
      qed
    qed
  qed
qed

lemma handle_trace: "trace (snd (handle req w)) = trace w @ new_events req w"
proof (cases "\<exists>b off. accepted req b off")
  case False
  then have "snd (handle req w) = w" by (simp add: handle_not_accepted)
  then show ?thesis by (simp add: new_events_def)
next
  case True
  then obtain b off where acc: "accepted req b off" by blast
  have h: "handle req w = batch off b w" using acc by (rule handle_accepted)
  show ?thesis
  proof (cases "page_of w b off")
    case (Inl message)
    then show ?thesis by (simp add: new_events_def h batch_page_error)
  next
    case (Inr page)
    then show ?thesis
      by (cases "page = []"; cases "length page = limit b")
         (simp_all add: new_events_def h batch_empty batch_full batch_last)
  qed
qed

section \<open>Pages of the source account\<close>

definition source_rows :: "world \<Rightarrow> string \<Rightarrow> row list" where
  "source_rows w userId = filter (\<lambda>r. r ''user_id'' = Some (Text userId)) (products w)"

lemma page_of_rows:
  "page_error w off = None \<Longrightarrow> limit b \<noteq> 0 \<Longrightarrow>
   page_of w b off = Inr (take (limit b) (drop off (source_rows w (sourceUserId b))))"
  by (simp add: page_of_def select_products_def source_rows_def)

section \<open>The job writes of an invocation and of a run\<close>

lemma marks [simp]:
  "set_status mark_processing = Some Processing" "set_completed_at mark_processing = None"
  "set_status (progress n) = None" "set_completed_at (progress n) = None"
  "set_status (mark_completed w) = Some Completed"
  "set_completed_at (mark_completed w) = Some (clock w)"
  "set_processed_count mark_processing = None"
  "set_processed_count (progress n) = Some n"
  "set_processed_count (mark_completed w) = None"
  by (simp_all add: mark_processing_def progress_def mark_completed_def)

lemma job_after_progress:
  "clone_jobs w (jobId b) = Some j \<Longrightarrow>
   clone_jobs (after_progress b off page w) (jobId b)
     = Some (j\<lparr>status := Processing,
               processed_count := processed_count j + fst (fst (counted b off page w))\<rparr>)"
  by (simp add: after_progress_def stored_count_def counted_def update_job_def apply_update_def)

lemma job_after_completed:
  "clone_jobs w jid = Some j \<Longrightarrow>
   clone_jobs (update_job off jid (mark_completed w0) w) jid
     = Some (j\<lparr>status := Completed, completed_at := Some (clock w0)\<rparr>)"
  by (simp add: update_job_def apply_update_def)

lemma after_progress_clock [simp]: "clock (after_progress b off page w) = clock w"
  by (simp add: after_progress_def counted_def)

text \<open>
  A property of the world that every invocation, every response and every dispatch
  preserves holds at the end of every run that returns.
\<close>

lemma serve_invariant:
  assumes run: "serve req0 w0 = Some y0"
    and start: "I w0"
    and step: "\<And>req w. I w \<Longrightarrow> I (snd (handle req w))"
    and resp: "\<And>req answer w. I w \<Longrightarrow> I (respond req answer w)"
    and disp: "\<And>nxt w. I w \<Longrightarrow> I (dispatch nxt w)"
  shows "I (snd y0)"
proof -
  have "I w0 \<longrightarrow> I (snd y0)"
  proof (rule serve.raw_induct [where P = "\<lambda>req w y. I w \<longrightarrow> I (snd y)", OF _ run])
    fix run :: "request \<Rightarrow> world \<Rightarrow> (response \<times> world) option"
      and req :: request and w :: world and y :: "response \<times> world"
    assume ih: "\<And>req w y. run req w = Some y \<Longrightarrow> I w \<longrightarrow> I (snd y)"
    assume body: "(case handle req w of
          (Return answer, w1) \<Rightarrow> Some (answer, respond req answer w1)
        | (AwaitDispatch next answer, w1) \<Rightarrow>
            if dispatch_fails w1 next
            then Some (answer, respond req answer (dispatch next w1))
            else
              Option.bind (run (post next) (dispatch next w1))
                (\<lambda>nested. Some (answer, respond req answer (snd nested)))) = Some y"
    show "I w \<longrightarrow> I (snd y)"
    proof
      assume "I w"
      then have h: "I (snd (handle req w))" by (rule step)
      obtain out w1 where hw: "handle req w = (out, w1)" by (cases "handle req w")
      with h have c1: "I w1" by simp
      show "I (snd y)"
      proof (cases out)
        case (Return answer)
        with body hw have "snd y = respond req answer w1" by auto
        with c1 show ?thesis by (simp add: resp)
      next
        case (AwaitDispatch nxt answer)
        show ?thesis
        proof (cases "dispatch_fails w1 nxt")
          case True
          with body hw AwaitDispatch have "snd y = respond req answer (dispatch nxt w1)" by auto
          with c1 show ?thesis by (simp add: resp disp)
        next
          case False
          with body hw AwaitDispatch
          obtain nested where n: "run (post nxt) (dispatch nxt w1) = Some nested"
            and y: "y = (answer, respond req answer (snd nested))"
            by (auto split: Option.bind_splits)
          from ih [OF n] c1 have "I (snd nested)" by (simp add: disp)
          with y show ?thesis by (simp add: resp)
        qed
      qed
    qed
  qed
  with start show ?thesis by simp
qed

lemma new_events_statuses:
  "list_all (\<lambda>e. written_status e \<in> {None, Some Processing, Some Completed})
     (new_events req w)"
  by (simp add: new_events_cases split: option.splits sum.splits)

lemma serve_statuses:
  assumes run: "serve req w = Some y"
  shows "list_all (\<lambda>e. written_status e \<in> {None, Some Processing, Some Completed})
     (drop (length (trace w)) (trace (snd y)))"
proof -
  let ?ok = "\<lambda>e. written_status e \<in> {None, Some Processing, Some Completed}"
  let ?I = "\<lambda>v::world. \<exists>new. trace v = trace w @ new \<and> list_all ?ok new"
  have "?I (snd y)"
    using run
  proof (rule serve_invariant)
    show "?I w" by simp
  next
    fix r v assume "?I v"
    then obtain new where n: "trace v = trace w @ new" "list_all ?ok new" by blast
    have "trace (snd (handle r v)) = trace w @ (new @ new_events r v)"
      by (simp add: handle_trace n)
    moreover have "list_all ?ok (new @ new_events r v)"
      using n(2) new_events_statuses [of r v] by simp
    ultimately show "?I (snd (handle r v))" by blast
  next
    fix r answer v assume "?I v"
    then obtain new where n: "trace v = trace w @ new" "list_all ?ok new" by blast
    have "trace (respond r answer v) = trace w @ (new @ [Responded r answer])"
      by (simp add: respond_def n)
    moreover have "list_all ?ok (new @ [Responded r answer])" using n(2) by simp
    ultimately show "?I (respond r answer v)" by blast
  next
    fix nxt v assume "?I v"
    then obtain new where n: "trace v = trace w @ new" "list_all ?ok new" by blast
    have "trace (dispatch nxt v) = trace w @ (new @ [Dispatched nxt])"
      by (simp add: dispatch_def n)
    moreover have "list_all ?ok (new @ [Dispatched nxt])" using n(2) by simp
    ultimately show "?I (dispatch nxt v)" by blast
  qed
  then show ?thesis by auto
qed

lemma invocation_statuses:
  "list_all (\<lambda>e. written_status e \<in> {None, Some Processing, Some Completed})
     (new_events req w)
   \<and> (list_ex (\<lambda>e. written_status e = Some Completed) (new_events req w) \<longrightarrow>
        (\<exists>b off page. accepted req b off \<and> page_of w b off = Inr page
            \<and> length page < limit b))"
proof (cases "\<exists>b off. accepted req b off")
  case False
  then have "snd (handle req w) = w" by (simp add: handle_not_accepted)
  then show ?thesis by (simp add: new_events_def)
next
  case True
  then obtain b off where acc: "accepted req b off" by blast
  then have j: "json req = Some b" and o: "offset b = Some off" and l: "limit b \<noteq> 0"
    by (simp_all add: accepted_def)
  show ?thesis
  proof (cases "page_of w b off")
    case (Inl message)
    then show ?thesis using acc by (simp add: new_events_cases j o)
  next
    case (Inr page)
    from page_is_short [OF Inr l] have short: "length page \<le> limit b" .
    show ?thesis
    proof (cases "length page = limit b")
      case True
      with l have "page \<noteq> []" by auto
      with True Inr acc show ?thesis by (simp add: new_events_cases j o)
    next
      case False
      with short have "length page < limit b" by simp
      with acc Inr have "\<exists>b off page. accepted req b off \<and> page_of w b off = Inr page
            \<and> length page < limit b" by blast
      moreover have "list_all (\<lambda>e. written_status e \<in> {None, Some Processing, Some Completed})
         (new_events req w)"
        using acc Inr False by (simp add: new_events_cases j o)
      ultimately show ?thesis by blast
    qed
  qed
qed

text \<open>
  A job has reached \<^verbatim>\<open>completed\<close> when an update that sets this status was issued
  for it. The completion timestamp of a job row is consistent when it is set exactly
  if the job has reached \<^verbatim>\<open>completed\<close>.
\<close>

definition reached_completed :: "event list \<Rightarrow> string \<Rightarrow> bool" where
  "reached_completed evs jid =
     list_ex (\<lambda>e. case e of
                     JobUpdated invocation j u \<Rightarrow> j = jid \<and> set_status u = Some Completed
                   | Dispatched next \<Rightarrow> False
                   | Responded req answer \<Rightarrow> False) evs"

definition timestamp_consistent :: "world \<Rightarrow> string \<Rightarrow> bool" where
  "timestamp_consistent w jid =
     (case clone_jobs w jid of
        None \<Rightarrow> True
      | Some j \<Rightarrow> (completed_at j \<noteq> None) = reached_completed (trace w) jid)"

lemma update_job_consistent:
  assumes "(set_completed_at u \<noteq> None) = (set_status u = Some Completed)"
    and "timestamp_consistent w jid"
  shows "timestamp_consistent (update_job invocation jid' u w) jid"
  using assms
  by (auto simp: timestamp_consistent_def update_job_def reached_completed_def apply_update_def
      split: option.splits)

lemma processBatch_consistent:
  "timestamp_consistent (snd (processBatch page source target jid' w)) jid
     = timestamp_consistent w jid"
  by (simp add: timestamp_consistent_def split: option.splits)

lemma after_progress_consistent:
  "timestamp_consistent w jid \<Longrightarrow> timestamp_consistent (after_progress b off page w) jid"
  unfolding after_progress_def counted_def
  by (intro update_job_consistent) (simp_all add: processBatch_consistent update_job_consistent)

lemma handle_consistent:
  "timestamp_consistent w jid \<Longrightarrow> timestamp_consistent (snd (handle req w)) jid"
proof (cases "\<exists>b off. accepted req b off")
  case False
  then show "timestamp_consistent w jid \<Longrightarrow> ?thesis" by (simp add: handle_not_accepted)
next
  case True
  assume c: "timestamp_consistent w jid"
  from True obtain b off where acc: "accepted req b off" by blast
  have h: "handle req w = batch off b w" using acc by (rule handle_accepted)
  show ?thesis
  proof (cases "page_of w b off")
    case (Inl message)
    then show ?thesis using c by (simp add: h batch_page_error)
  next
    case (Inr page)
    then show ?thesis using c
      by (cases "page = []"; cases "length page = limit b")
         (simp_all add: h batch_empty batch_full batch_last update_job_consistent
            after_progress_consistent)
  qed
qed

lemma respond_consistent [simp]:
  "timestamp_consistent (respond req answer w) jid = timestamp_consistent w jid"
  by (simp add: timestamp_consistent_def respond_def reached_completed_def split: option.splits)

lemma dispatch_consistent [simp]:
  "timestamp_consistent (dispatch next w) jid = timestamp_consistent w jid"
  by (simp add: timestamp_consistent_def dispatch_def reached_completed_def split: option.splits)

lemma new_events_timestamps:
  "list_all (\<lambda>e. (written_timestamp e \<noteq> None) = (written_status e = Some Completed))
     (new_events req w)"
  by (simp add: new_events_cases split: option.splits sum.splits)

section \<open>A sample world\<close>

text \<open>
  A seller with \<open>n\<close> products and no images, a pending job for the clone, and nothing
  that fails; and the same shop with two products whose job is already completed.
\<close>

definition item :: "nat \<Rightarrow> row" where
  "item i = [''id'' \<mapsto> Text (''p'' @ decimal i), ''user_id'' \<mapsto> Text ''seller'',
             ''title'' \<mapsto> Text ''Chair'']"

definition new_job :: "nat \<Rightarrow> clone_job" where
  "new_job n =
     \<lparr>status = Pending, total_products = n, processed_count = 0, error_message = None,
      completed_at = None\<rparr>"

definition shop :: "nat \<Rightarrow> world" where
  "shop n =
     \<lparr>products = map item [0..<n], product_images = [],
      clone_jobs = [''job'' \<mapsto> new_job n], trace = [], clock = 7,
      new_id = (\<lambda>k. ''n'' @ decimal k), page_error = (\<lambda>off. None),
      item_fault = (\<lambda>r. NoFault), transfer = (\<lambda>newId url. None),
      dispatch_fails = (\<lambda>next. False)\<rparr>"

definition first_batch :: "nat \<Rightarrow> CloneProductsRequest" where
  "first_batch l =
     \<lparr>jobId = ''job'', sourceUserId = ''seller'', targetUserId = ''copy'', offset = Some 0,
      limit = l\<rparr>"

lemma post_fields [simp]: "json (post b) = Some b" "http_method (post b) = ''POST''"
  by (simp_all add: post_def)

lemma first_batch_fields [simp]:
  "jobId (first_batch l) = ''job''" "sourceUserId (first_batch l) = ''seller''"
  "targetUserId (first_batch l) = ''copy''" "offset (first_batch l) = Some 0"
  "limit (first_batch l) = l"
  by (simp_all add: first_batch_def)

lemma source_rows_shop: "source_rows (shop n) ''seller'' = map item [0..<n]"
  by (simp add: source_rows_def shop_def item_def filter_map o_def)

lemma accepted_first: "l \<noteq> 0 \<Longrightarrow> accepted (post (first_batch l)) (first_batch l) 0"
  by (simp add: accepted_def post_def first_batch_def)

lemma page_shop:
  "l \<noteq> 0 \<Longrightarrow> page_of (shop n) (first_batch l) 0 = Inr (take l (map item [0..<n]))"
  using page_of_rows [of "shop n" 0 "first_batch l"] source_rows_shop [of n]
  by (simp add: first_batch_def shop_def)

lemma shop_job: "clone_jobs (shop n) ''job'' = Some (new_job n)"
  by (simp add: shop_def)

lemma page_shop_2: "page_of (shop 2) (first_batch 5) 0 = Inr [item 0, item 1]"
proof -
  have "[0..<2] = [0, Suc 0]" by (simp add: upt_rec numeral_2_eq_2)
  then show ?thesis using page_shop [of 5 2] by simp
qed

lemma new_events_shop_2:
  "new_events (post (first_batch 5)) (shop 2)
     = [JobUpdated 0 ''job'' mark_processing,
        JobUpdated 0 ''job''
          (progress (stored_count (first_batch 5) 0 [item 0, item 1] (shop 2))),
        JobUpdated 0 ''job''
          (mark_completed (after_progress (first_batch 5) 0 [item 0, item 1] (shop 2)))]"
  by (simp add: new_events_cases page_shop_2 accepted_first)

lemma handle_shop_2:
  "handle (post (first_batch 5)) (shop 2)
     = (Return (Response 200
          (Cloned (fst (fst (counted (first_batch 5) 0 [item 0, item 1] (shop 2))))
                  (snd (fst (counted (first_batch 5) 0 [item 0, item 1] (shop 2)))) False)),
        update_job 0 ''job''
          (mark_completed (after_progress (first_batch 5) 0 [item 0, item 1] (shop 2)))
          (after_progress (first_batch 5) 0 [item 0, item 1] (shop 2)))"
  using batch_last [OF page_shop_2] handle_accepted [OF accepted_first [of 5], of "shop 2"]
  by simp

definition finished_job :: clone_job where
  "finished_job =
     \<lparr>status = Completed, total_products = 2, processed_count = 2, error_message = None,
      completed_at = Some 3\<rparr>"

definition finished_shop :: world where
  "finished_shop = (shop 2)\<lparr>clone_jobs := [''job'' \<mapsto> finished_job]\<rparr>"

lemma page_finished_shop: "page_of finished_shop (first_batch 2) 0 = Inr [item 0, item 1]"
proof -
  have "[0..<2] = [0, Suc 0]" by (simp add: upt_rec numeral_2_eq_2)
  then show ?thesis
    using page_of_rows [of finished_shop 0 "first_batch 2"]
    by (simp add: finished_shop_def shop_def source_rows_def item_def)
qed

section \<open>The job record: statuses and the completion timestamp\<close>

text \<open>
  C8. No path through a batch invocation writes the status \<^verbatim>\<open>failed\<close>: whatever the
  request and the world (a refused request, a failed page query, failing rows), every
  job update of the invocation leaves the status alone or sets it to \<^verbatim>\<open>processing\<close>
  or \<^verbatim>\<open>completed\<close>, and \<^verbatim>\<open>completed\<close> is written only when the page holds fewer rows
  than the limit (the source pages are exhausted). The job updates of a whole run, the
  invocations it dispatches included, are of the same kind.
\<close>

theorem worker_never_writes_failed:
  "list_all (\<lambda>e. written_status e \<in> {None, Some Processing, Some Completed})
     (new_events req w)
   \<and> (list_ex (\<lambda>e. written_status e = Some Completed) (new_events req w) \<longrightarrow>
        (\<exists>b off page. accepted req b off \<and> page_of w b off = Inr page
            \<and> length page < limit b))
   \<and> (\<forall>answer w'. serve req w = Some (answer, w') \<longrightarrow>
        list_all (\<lambda>e. written_status e \<in> {None, Some Processing, Some Completed})
          (drop (length (trace w)) (trace w')))"
proof -
  have "\<forall>answer w'. serve req w = Some (answer, w') \<longrightarrow>
        list_all (\<lambda>e. written_status e \<in> {None, Some Processing, Some Completed})
          (drop (length (trace w)) (trace w'))"
  proof (intro allI impI)
    fix answer w'
    assume "serve req w = Some (answer, w')"
    from serve_statuses [OF this]
    show "list_all (\<lambda>e. written_status e \<in> {None, Some Processing, Some Completed})
          (drop (length (trace w)) (trace w'))"
      by simp
  qed
  with invocation_statuses [of req w] show ?thesis by blast
qed

theorem worker_never_writes_failed_witness:
  "list_ex (\<lambda>e. written_status e = Some Completed) (new_events (post (first_batch 5)) (shop 2))
   \<and> (\<exists>b off page. accepted (post (first_batch 5)) b off \<and> page_of (shop 2) b off = Inr page
        \<and> length page < limit b)"
proof -
  have w: "list_ex (\<lambda>e. written_status e = Some Completed)
      (new_events (post (first_batch 5)) (shop 2))"
    by (simp add: new_events_shop_2)
  with worker_never_writes_failed [of "post (first_batch 5)" "shop 2"]
  show ?thesis by blast
qed

text \<open>
  C9. The worker sets \<^verbatim>\<open>completed_at\<close> in exactly the updates that set the status
  \<^verbatim>\<open>completed\<close>, and no update clears it. So for every job row, the timestamp is set
  if and only if the job has reached \<^verbatim>\<open>completed\<close>: an invocation keeps this true, and
  so does a whole run.
\<close>

theorem completed_at_iff_completed:
  "list_all (\<lambda>e. (written_timestamp e \<noteq> None) = (written_status e = Some Completed))
     (new_events req w)
   \<and> (timestamp_consistent w jid \<longrightarrow> timestamp_consistent (snd (handle req w)) jid)
   \<and> (\<forall>answer w'. serve req w = Some (answer, w') \<longrightarrow> timestamp_consistent w jid \<longrightarrow>
         timestamp_consistent w' jid)"
proof (intro conjI allI impI)
  show "list_all (\<lambda>e. (written_timestamp e \<noteq> None) = (written_status e = Some Completed))
     (new_events req w)"
    by (rule new_events_timestamps)
next
  assume "timestamp_consistent w jid"
  then show "timestamp_consistent (snd (handle req w)) jid" by (rule handle_consistent)
next
  fix answer w'
  assume run: "serve req w = Some (answer, w')" and c: "timestamp_consistent w jid"
  have "timestamp_consistent (snd (answer, w')) jid"
    using run c
  proof (rule serve_invariant)
    fix r v assume "timestamp_consistent v jid"
    then show "timestamp_consistent (snd (handle r v)) jid" by (rule handle_consistent)
  qed simp_all
  then show "timestamp_consistent w' jid" by simp
qed

theorem completed_at_iff_completed_witness:
  "timestamp_consistent (shop 2) ''job''
   \<and> timestamp_consistent (snd (handle (post (first_batch 5)) (shop 2))) ''job''
   \<and> (\<exists>j. clone_jobs (snd (handle (post (first_batch 5)) (shop 2))) ''job'' = Some j
          \<and> status j = Completed \<and> completed_at j = Some 7)"
proof -
  have c: "timestamp_consistent (shop 2) ''job''"
    by (simp add: timestamp_consistent_def shop_def new_job_def reached_completed_def)
  with completed_at_iff_completed [of "post (first_batch 5)" "shop 2" "''job''"]
  have after: "timestamp_consistent (snd (handle (post (first_batch 5)) (shop 2))) ''job''"
    by blast
  have "clone_jobs (after_progress (first_batch 5) 0 [item 0, item 1] (shop 2)) ''job''
      = Some ((new_job 2)\<lparr>status := Processing,
          processed_count := processed_count (new_job 2)
            + fst (fst (counted (first_batch 5) 0 [item 0, item 1] (shop 2)))\<rparr>)"
    using job_after_progress [of "shop 2" "first_batch 5" "new_job 2" 0 "[item 0, item 1]"]
    by (simp add: shop_job)
  then have "\<exists>j. clone_jobs (snd (handle (post (first_batch 5)) (shop 2))) ''job'' = Some j
          \<and> status j = Completed \<and> completed_at j = Some 7"
    by (simp add: handle_shop_2 job_after_completed) (simp add: shop_def)
  with c after show ?thesis by blast
qed

text \<open>
  C10. The write of \<^verbatim>\<open>processing\<close> is not guarded by the status the job has. For an
  accepted request whose page is not empty, the first write of the invocation sets the
  status to \<^verbatim>\<open>processing\<close> whatever it was (\<^verbatim>\<open>completed\<close> and \<^verbatim>\<open>failed\<close> included),
  and when the page is full the invocation ends with the job in \<^verbatim>\<open>processing\<close>.
\<close>

theorem processing_write_is_unguarded:
  "accepted req b off \<and> page_of w b off = Inr page \<and> page \<noteq> []
     \<and> clone_jobs w (jobId b) = Some j \<longrightarrow>
   (\<exists>rest. new_events req w = JobUpdated off (jobId b) mark_processing # rest)
   \<and> clone_jobs (update_job off (jobId b) mark_processing w) (jobId b)
       = Some (j\<lparr>status := Processing\<rparr>)
   \<and> (length page = limit b \<longrightarrow>
        clone_jobs (snd (handle req w)) (jobId b)
          = Some (j\<lparr>status := Processing,
                    processed_count := processed_count j
                      + fst (fst (counted b off page w))\<rparr>))"
proof (intro impI, elim conjE, intro conjI impI)
  assume acc: "accepted req b off" and page: "page_of w b off = Inr page"
    and ne: "page \<noteq> []" and job: "clone_jobs w (jobId b) = Some j"
  from acc have j: "json req = Some b" and o: "offset b = Some off"
    by (simp_all add: accepted_def)
  show "\<exists>rest. new_events req w = JobUpdated off (jobId b) mark_processing # rest"
    using acc page ne by (simp add: new_events_cases j o)
  show "clone_jobs (update_job off (jobId b) mark_processing w) (jobId b)
       = Some (j\<lparr>status := Processing\<rparr>)"
    using job by (simp add: update_job_def apply_update_def)
  assume full: "length page = limit b"
  have "handle req w = batch off b w" using acc by (rule handle_accepted)
  with batch_full [OF page ne full] job_after_progress [OF job, of off page]
  show "clone_jobs (snd (handle req w)) (jobId b)
          = Some (j\<lparr>status := Processing,
                    processed_count := processed_count j
                      + fst (fst (counted b off page w))\<rparr>)"
    by simp
qed

theorem processing_write_is_unguarded_witness:
  "accepted (post (first_batch 2)) (first_batch 2) 0
   \<and> page_of finished_shop (first_batch 2) 0 = Inr [item 0, item 1]
   \<and> clone_jobs finished_shop ''job'' = Some finished_job
   \<and> status finished_job = Completed
   \<and> (\<exists>j. clone_jobs (snd (handle (post (first_batch 2)) finished_shop)) ''job'' = Some j
          \<and> status j = Processing \<and> completed_at j = Some 3)"
proof -
  have a: "accepted (post (first_batch 2)) (first_batch 2) 0" by (simp add: accepted_first)
  have j: "clone_jobs finished_shop (jobId (first_batch 2)) = Some finished_job"
    by (simp add: finished_shop_def)
  have s: "status finished_job = Completed" by (simp add: finished_job_def)
  have l: "length [item 0, item 1] = limit (first_batch 2)" by simp
  from processing_write_is_unguarded
    [of "post (first_batch 2)" "first_batch 2" 0 finished_shop "[item 0, item 1]" finished_job]
    a page_finished_shop j l
  have "clone_jobs (snd (handle (post (first_batch 2)) finished_shop)) ''job''
      = Some (finished_job\<lparr>status := Processing,
          processed_count := processed_count finished_job
            + fst (fst (counted (first_batch 2) 0 [item 0, item 1] finished_shop))\<rparr>)"
    by simp
  then have "\<exists>j. clone_jobs (snd (handle (post (first_batch 2)) finished_shop)) ''job'' = Some j
          \<and> status j = Processing \<and> completed_at j = Some 3"
    by (simp add: finished_job_def)
  with a page_finished_shop j s show ?thesis by simp
qed

section \<open>A whole run\<close>

text \<open>
  A world in which nothing fails: no page query, no row, no dispatch.
\<close>

definition untroubled :: "world \<Rightarrow> bool" where
  "untroubled w =
     ((\<forall>off. page_error w off = None) \<and> (\<forall>r. item_fault w r = NoFault)
      \<and> (\<forall>nxt. \<not> dispatch_fails w nxt))"

text \<open>
  The worker inserts rows of the target account only, and changes
  \<^verbatim>\<open>featured_image_url\<close> only: when the target is not the source, the source account
  keeps its number of rows.
\<close>

lemma inserted_row_owner:
  "fst (insert_product (insert_payload target product) w) ''user_id'' = Some (Text target)"
  by (simp add: insert_product_def Let_def object_def insert_payload_def)

lemma source_rows_insert:
  "source \<noteq> target \<Longrightarrow>
   source_rows (snd (insert_product (insert_payload target product) w)) source
     = source_rows w source"
  by (simp add: source_rows_def inserted_row_owner)

lemma set_featured_image_owner [simp]:
  "set_featured_image productId url r ''user_id'' = r ''user_id''"
  by (simp add: set_featured_image_def)

lemma source_rows_copy_images:
  "length (source_rows (copy_images product newProduct w) source)
     = length (source_rows w source)"
  by (simp add: copy_images_def Let_def source_rows_def filter_map o_def split: option.splits)

lemma source_rows_process_items:
  "source \<noteq> target \<Longrightarrow>
   length (source_rows (snd (process_items page target acc w)) source)
     = length (source_rows w source)"
proof (induction page arbitrary: acc w)
  case Nil
  show ?case by (cases acc) simp
next
  case (Cons product rest)
  obtain s e where acc: "acc = (s, e)" by (cases acc)
  show ?case
  proof (cases "item_fault w product")
    case NoFault
    then show ?thesis
      using Cons.IH [OF Cons.prems, of "(s + 1, e)"
          "copy_images product (fst (insert_product (insert_payload target product) w))
             (snd (insert_product (insert_payload target product) w))"]
      by (simp add: acc Let_def source_rows_copy_images source_rows_insert [OF Cons.prems])
  next
    case InsertFails
    then show ?thesis using Cons.IH [OF Cons.prems, of "(s, e + 1)" w] by (simp add: acc)
  next
    case ThrowsBeforeInsert
    then show ?thesis using Cons.IH [OF Cons.prems, of "(s, e + 1)" w] by (simp add: acc)
  next
    case ThrowsAfterInsert
    then show ?thesis
      using Cons.IH [OF Cons.prems, of "(s, e + 1)"
          "snd (insert_product (insert_payload target product) w)"]
      by (simp add: acc source_rows_insert [OF Cons.prems])
  qed
qed

lemma source_rows_update_job [simp]:
  "source_rows (update_job invocation jid u w) source = source_rows w source"
  by (simp add: source_rows_def)

lemma source_rows_after_progress:
  "sourceUserId b \<noteq> targetUserId b \<Longrightarrow>
   length (source_rows (after_progress b off page w) (sourceUserId b))
     = length (source_rows w (sourceUserId b))"
  by (simp add: after_progress_def counted_def processBatch_def source_rows_process_items)

lemma untroubled_after_progress:
  "untroubled w \<Longrightarrow> untroubled (after_progress b off page w)"
  by (simp add: untroubled_def after_progress_def counted_def)

lemma counted_untroubled:
  "untroubled w \<Longrightarrow> fst (counted b off page w) = (length page, 0)"
proof -
  assume "untroubled w"
  then have ok: "cloned_ok (update_job off (jobId b) mark_processing w) = (\<lambda>r. True)"
    by (simp add: untroubled_def cloned_ok_def fun_eq_iff)
  show ?thesis
    using process_items_counts
      [of page "targetUserId b" 0 0 "update_job off (jobId b) mark_processing w"]
    by (simp add: counted_def processBatch_def ok)
qed

lemma after_progress_frame [simp]:
  "dispatch_fails (after_progress b off page w) = dispatch_fails w"
  "page_error (after_progress b off page w) = page_error w"
  "item_fault (after_progress b off page w) = item_fault w"
  by (simp_all add: after_progress_def counted_def)

lemma stored_count_job:
  "clone_jobs w (jobId b) = Some j \<Longrightarrow>
   stored_count b off page w = processed_count j + fst (fst (counted b off page w))"
  by (simp add: stored_count_def counted_def update_job_def apply_update_def)

text \<open>
  The responses in a trace, one for each invocation, and the number of rows a response
  reports as processed (\<^verbatim>\<open>processed: 0\<close> in the answer to an empty page).
\<close>

fun replies :: "event list \<Rightarrow> response list" where
  "replies [] = []"
| "replies (JobUpdated invocation jid u # es) = replies es"
| "replies (Dispatched nxt # es) = replies es"
| "replies (Responded req answer # es) = answer # replies es"

fun processed_of :: "response \<Rightarrow> nat" where
  "processed_of (Response code (Cloned successCount errorCount hasMore)) = successCount"
| "processed_of (Response code CloningCompleted) = 0"
| "processed_of (Response code NoBody) = 0"
| "processed_of (Response code (ErrorBody message)) = 0"
| "processed_of (Response code (FailureBody message)) = 0"

lemma replies_append [simp]: "replies (xs @ ys) = replies xs @ replies ys"
  by (induction xs rule: replies.induct) simp_all

lemma respond_frame [simp]:
  "clone_jobs (respond req answer w) = clone_jobs w"
  "trace (respond req answer w) = trace w @ [Responded req answer]"
  "clock (respond req answer w) = clock w"
  by (simp_all add: respond_def)

lemma dispatch_frame [simp]:
  "clone_jobs (dispatch nxt w) = clone_jobs w"
  "trace (dispatch nxt w) = trace w @ [Dispatched nxt]"
  "clock (dispatch nxt w) = clock w"
  "source_rows (dispatch nxt w) source = source_rows w source"
  "untroubled (dispatch nxt w) = untroubled w"
  by (simp_all add: dispatch_def source_rows_def untroubled_def)

lemma serve_return:
  "handle req w = (Return answer, w1) \<Longrightarrow> serve req w = Some (answer, respond req answer w1)"
  by (subst serve.simps) simp

lemma serve_chain:
  "handle req w = (AwaitDispatch nxt answer, w1) \<Longrightarrow> \<not> dispatch_fails w1 nxt \<Longrightarrow>
   serve (post nxt) (dispatch nxt w1) = Some nested \<Longrightarrow>
   serve req w = Some (answer, respond req answer (snd nested))"
  by (subst serve.simps) simp

lemma serve_dropped:
  "handle req w = (AwaitDispatch nxt answer, w1) \<Longrightarrow> dispatch_fails w1 nxt \<Longrightarrow>
   serve req w = Some (answer, respond req answer (dispatch nxt w1))"
  by (subst serve.simps) simp

text \<open>
  The run from offset \<open>off\<close> when \<open>n\<close> rows remain: it returns, the invocations
  report \<open>limit\<close> rows each while full pages last, then the remainder, and the job is
  completed with all \<open>n\<close> rows added to its count.
\<close>

lemma run_from:
  assumes "untroubled w" and "accepted (post b) b off"
    and "sourceUserId b \<noteq> targetUserId b" and "clone_jobs w (jobId b) = Some j"
    and "n = length (source_rows w (sourceUserId b)) - off"
  shows "\<exists>answer w' new. serve (post b) w = Some (answer, w')
      \<and> trace w' = trace w @ new
      \<and> map processed_of (rev (replies new))
           = replicate (n div limit b) (limit b) @ [n mod limit b]
      \<and> clone_jobs w' (jobId b)
          = Some (j\<lparr>status := Completed, processed_count := processed_count j + n,
                    completed_at := Some (clock w)\<rparr>)"
  using assms
proof (induction n arbitrary: b w j off rule: less_induct)
  case (less n)
  let ?rows = "source_rows w (sourceUserId b)"
  let ?L = "limit b"
  let ?page = "take ?L (drop off ?rows)"
  from less.prems(2) have L: "?L \<noteq> 0" and o: "offset b = Some off"
    by (simp_all add: accepted_def)
  from less.prems(1) have noerr: "page_error w off = None" by (simp add: untroubled_def)
  have page: "page_of w b off = Inr ?page" using noerr L by (rule page_of_rows)
  have h: "handle (post b) w = batch off b w" using less.prems(2) by (rule handle_accepted)
  have n: "n = length ?rows - off" by (rule less.prems(5))
  have len: "length ?page = min ?L n" by (simp add: n min.commute)
  show ?case
  proof (cases "n = 0")
    case True
    then have empty: "?page = []" using n by simp
    have "serve (post b) w
        = Some (Response 200 CloningCompleted,
                respond (post b) (Response 200 CloningCompleted)
                  (update_job off (jobId b) (mark_completed w) w))"
      using page empty by (intro serve_return) (simp add: h batch_empty)
    then show ?thesis
      using True less.prems(4) by (simp add: job_after_completed)
  next
    case False
    then have ne: "?page \<noteq> []" using len L by auto
    have cnt: "fst (counted b off ?page w) = (length ?page, 0)"
      using less.prems(1) by (rule counted_untroubled)
    have job1: "clone_jobs (after_progress b off ?page w) (jobId b)
        = Some (j\<lparr>status := Processing,
                  processed_count := processed_count j + length ?page\<rparr>)"
      using job_after_progress [OF less.prems(4), of off ?page] cnt by simp
    show ?thesis
    proof (cases "n < ?L")
      case True
      then have short: "length ?page \<noteq> ?L" and lp: "length ?page = n" using len by simp_all
      have "serve (post b) w
          = Some (Response 200 (Cloned n 0 False),
                  respond (post b) (Response 200 (Cloned n 0 False))
                    (update_job off (jobId b) (mark_completed (after_progress b off ?page w))
                       (after_progress b off ?page w)))"
        using batch_last [OF page ne short] cnt lp by (intro serve_return) (simp add: h)
      then show ?thesis
        using True job1 lp by (simp add: job_after_completed)
    next
      case False
      then have full: "length ?page = ?L" using len by simp
      let ?next = "b\<lparr>offset := Some (off + ?L)\<rparr>"
      let ?w1 = "dispatch ?next (after_progress b off ?page w)"
      let ?answer = "Response 200 (Cloned ?L 0 True)"
      have hd: "handle (post b) w = (AwaitDispatch ?next ?answer, after_progress b off ?page w)"
        using batch_full [OF page ne full] cnt full by (simp add: h)
      have smaller: "n - ?L < n" using False L by simp
      have u1: "untroubled ?w1" using less.prems(1) by (simp add: untroubled_after_progress)
      have a1: "accepted (post ?next) ?next (off + ?L)"
        using less.prems(2) by (simp add: accepted_def post_def)
      have d1: "sourceUserId ?next \<noteq> targetUserId ?next" using less.prems(3) by simp
      have j1: "clone_jobs ?w1 (jobId ?next)
          = Some (j\<lparr>status := Processing, processed_count := processed_count j + ?L\<rparr>)"
        using job1 full by simp
      have n1: "n - ?L = length (source_rows ?w1 (sourceUserId ?next)) - (off + ?L)"
        using n source_rows_after_progress [OF less.prems(3), of off ?page w] by simp
      from less.IH [OF smaller u1 a1 d1 j1 n1]
      obtain reply w' new where run: "serve (post ?next) ?w1 = Some (reply, w')"
        and tr: "trace w' = trace ?w1 @ new"
        and sizes: "map processed_of (rev (replies new))
           = replicate ((n - ?L) div ?L) ?L @ [(n - ?L) mod ?L]"
        and job: "clone_jobs w' (jobId b)
          = Some (j\<lparr>status := Completed, processed_count := processed_count j + ?L + (n - ?L),
                    completed_at := Some (clock w)\<rparr>)"
        by (auto simp: after_progress_clock)
      have nofail: "\<not> dispatch_fails (after_progress b off ?page w) ?next"
        using less.prems(1) by (simp add: untroubled_def)
      have s: "serve (post b) w = Some (?answer, respond (post b) ?answer w')"
        using serve_chain [OF hd nofail run] by simp
      have dm: "n div ?L = Suc ((n - ?L) div ?L)" "n mod ?L = (n - ?L) mod ?L"
        using False L by (simp_all add: le_div_geq le_mod_geq)
      have "map processed_of (rev (replies (JobUpdated off (jobId b) mark_processing
               # JobUpdated off (jobId b) (progress (stored_count b off ?page w))
               # Dispatched ?next # new @ [Responded (post b) ?answer])))
           = replicate (n div ?L) ?L @ [n mod ?L]"
        using sizes dm by simp
      moreover have "trace (respond (post b) ?answer w')
           = trace w @ (JobUpdated off (jobId b) mark_processing
               # JobUpdated off (jobId b) (progress (stored_count b off ?page w))
               # Dispatched ?next # new @ [Responded (post b) ?answer])"
        using tr by simp
      moreover have "clone_jobs (respond (post b) ?answer w') (jobId b)
          = Some (j\<lparr>status := Completed, processed_count := processed_count j + n,
                    completed_at := Some (clock w)\<rparr>)"
        using job False by simp
      ultimately show ?thesis using s by blast
    qed
  qed
qed

lemma serve_extends:
  assumes "serve req w = Some y"
  shows "\<exists>new. trace (snd y) = trace w @ new"
  using assms
proof (rule serve_invariant)
  show "\<exists>new. trace w = trace w @ new" by simp
next
  fix r and v :: world
  assume "\<exists>new. trace v = trace w @ new"
  then show "\<exists>new. trace (snd (handle r v)) = trace w @ new"
    by (auto simp: handle_trace)
next
  fix r answer and v :: world
  assume "\<exists>new. trace v = trace w @ new"
  then show "\<exists>new. trace (respond r answer v) = trace w @ new" by auto
next
  fix nxt and v :: world
  assume "\<exists>new. trace v = trace w @ new"
  then show "\<exists>new. trace (dispatch nxt v) = trace w @ new" by auto
qed

text \<open>The last event of a run is the response of the invocation that started it.\<close>

lemma serve_last_event:
  assumes run: "serve req w = Some (answer, w')"
  shows "\<exists>before. trace w' = trace w @ before @ [Responded req answer]"
proof -
  obtain out w1 where hw: "handle req w = (out, w1)" by (cases "handle req w")
  have t1: "trace w1 = trace w @ new_events req w" using handle_trace [of req w] hw by simp
  show ?thesis
  proof (cases out)
    case (Return a)
    with hw have "serve req w = Some (a, respond req a w1)" by (simp add: serve_return)
    with run t1 show ?thesis by auto
  next
    case (AwaitDispatch nxt a)
    show ?thesis
    proof (cases "dispatch_fails w1 nxt")
      case True
      with hw AwaitDispatch have "serve req w = Some (a, respond req a (dispatch nxt w1))"
        by (simp add: serve_dropped)
      with run t1 show ?thesis by auto
    next
      case False
      with run hw AwaitDispatch obtain nested
        where n: "serve (post nxt) (dispatch nxt w1) = Some nested"
          and r: "answer = a" "w' = respond req a (snd nested)"
        by (subst (asm) serve.simps) (auto split: Option.bind_splits)
      from serve_extends [OF n] obtain new
        where "trace (snd nested) = trace (dispatch nxt w1) @ new" by blast
      with r t1 show ?thesis by auto
    qed
  qed
qed

lemma awaited_run:
  assumes hd: "handle req w = (AwaitDispatch nxt a, w1)"
    and run: "serve req w = Some (answer, w')"
  shows "answer = a \<and> (\<exists>nested. trace w'
           = trace w @ new_events req w @ [Dispatched nxt] @ nested @ [Responded req answer]
       \<and> (\<not> dispatch_fails w1 nxt \<longrightarrow>
            (\<exists>before reply. nested = before @ [Responded (post nxt) reply])))"
proof -
  have t1: "trace w1 = trace w @ new_events req w" using handle_trace [of req w] hd by simp
  show ?thesis
  proof (cases "dispatch_fails w1 nxt")
    case True
    with hd have "serve req w = Some (a, respond req a (dispatch nxt w1))"
      by (simp add: serve_dropped)
    with run t1 True show ?thesis by auto
  next
    case False
    with run hd obtain nested
      where n: "serve (post nxt) (dispatch nxt w1) = Some nested"
        and r: "answer = a" "w' = respond req a (snd nested)"
      by (subst (asm) serve.simps) (auto split: Option.bind_splits)
    from serve_last_event [of "post nxt" "dispatch nxt w1" "fst nested" "snd nested"] n
    obtain before where "trace (snd nested)
        = trace (dispatch nxt w1) @ before @ [Responded (post nxt) (fst nested)]"
      by auto
    with r t1 have "trace w' = trace w @ new_events req w @ [Dispatched nxt]
        @ (before @ [Responded (post nxt) (fst nested)]) @ [Responded req answer]"
      by simp
    with r(1) show ?thesis by blast
  qed
qed

lemma ceiling_div:
  assumes L: "0 < (L::nat)"
  shows "(N + L - 1) div L = (if L dvd N then N div L else N div L + 1)"
proof -
  define q r where "q = N div L" and "r = N mod L"
  have N: "N = r + L * q" by (simp add: q_def r_def)
  have rL: "r < L" using L by (simp add: r_def)
  show ?thesis
  proof (cases "r = 0")
    case True
    then have d: "L dvd N" by (simp add: r_def dvd_eq_mod_eq_0)
    have "N + L - 1 = (L - 1) + L * q" using N True L by simp
    then have "(N + L - 1) div L = q + (L - 1) div L"
      using L by (simp only: div_mult_self2 [of L "L - 1" q])
    moreover have "(L - 1) div L = 0" using L by simp
    ultimately show ?thesis using d by (simp add: q_def)
  next
    case False
    then have d: "\<not> L dvd N" by (simp add: r_def dvd_eq_mod_eq_0)
    have "N + L - 1 = (r - 1) + L * (q + 1)" using N False L by simp
    then have "(N + L - 1) div L = (q + 1) + (r - 1) div L"
      using L by (simp only: div_mult_self2 [of L "r - 1" "q + 1"])
    moreover have "(r - 1) div L = 0" using rL by simp
    ultimately show ?thesis using d by (simp add: q_def)
  qed
qed

lemma nonempty_pages:
  assumes L: "0 < (L::nat)"
    and sizes: "map processed_of (rev rs) = replicate (N div L) L @ [N mod L]"
  shows "length (filter (\<lambda>r. processed_of r \<noteq> 0) rs) = (N + L - 1) div L"
proof -
  have "length (filter (\<lambda>r. processed_of r \<noteq> 0) rs)
      = length (filter (\<lambda>r. processed_of r \<noteq> 0) (rev rs))"
    by (simp only: rev_filter [symmetric] length_rev)
  also have "\<dots> = length (filter (\<lambda>n. n \<noteq> 0) (map processed_of (rev rs)))"
    by (simp add: filter_map o_def)
  also have "\<dots> = length (filter (\<lambda>n. n \<noteq> 0) (replicate (N div L) L @ [N mod L]))"
    by (simp only: sizes)
  also have "\<dots> = N div L + (if N mod L = 0 then 0 else 1)"
    using L by simp
  also have "\<dots> = (N + L - 1) div L"
    using ceiling_div [OF L, of N] by (simp add: dvd_eq_mod_eq_0)
  finally show ?thesis .
qed

text \<open>The number of invocations of a run, and the events it adds to the trace.\<close>

definition invocations :: "request \<Rightarrow> world \<Rightarrow> nat option" where
  "invocations req w =
     map_option (\<lambda>run. length (replies (drop (length (trace w)) (trace (snd run)))))
       (serve req w)"

definition run_events :: "request \<Rightarrow> world \<Rightarrow> event list option" where
  "run_events req w =
     map_option (\<lambda>run. drop (length (trace w)) (trace (snd run))) (serve req w)"

lemma untroubled_shop: "untroubled (shop n)"
  by (simp add: untroubled_def shop_def)

lemma shop_trace [simp]: "trace (shop n) = []"
  by (simp add: shop_def)

lemma shop_clock [simp]: "clock (shop n) = 7"
  by (simp add: shop_def)

lemma shop_run:
  "l \<noteq> 0 \<Longrightarrow>
   \<exists>answer w' new. serve (post (first_batch l)) (shop n) = Some (answer, w')
      \<and> trace w' = new
      \<and> map processed_of (rev (replies new)) = replicate (n div l) l @ [n mod l]
      \<and> clone_jobs w' ''job''
          = Some ((new_job n)\<lparr>status := Completed, processed_count := n,
                    completed_at := Some 7\<rparr>)"
  using run_from [of "shop n" "first_batch l" 0 "new_job n" n]
  by (simp add: untroubled_shop accepted_first shop_job source_rows_shop)
     (simp add: new_job_def)

lemma page_shop_1: "page_of (shop 1) (first_batch 1) 0 = Inr [item 0]"
  using page_shop [of 1 1] by simp

lemma page_shop_2_full: "page_of (shop 2) (first_batch 2) 0 = Inr [item 0, item 1]"
proof -
  have "[0..<2] = [0, Suc 0]" by (simp add: upt_rec numeral_2_eq_2)
  then show ?thesis using page_shop [of 2 2] by simp
qed

text \<open>
  The run over one product with a limit of one, step by step: the first invocation has a
  full page and dispatches the second, which finds no rows.
\<close>

definition second_batch :: CloneProductsRequest where
  "second_batch = (first_batch 1)\<lparr>offset := Some 1\<rparr>"

lemma first_of_two:
  "handle (post (first_batch 1)) (shop 1)
     = (AwaitDispatch second_batch (Response 200 (Cloned 1 0 True)),
        after_progress (first_batch 1) 0 [item 0] (shop 1))"
  using batch_full [OF page_shop_1] counted_untroubled [OF untroubled_shop, of "first_batch 1" 0 "[item 0]" 1]
    handle_accepted [OF accepted_first [of 1], of "shop 1"]
  by (simp add: second_batch_def)

lemma second_of_two:
  "serve (post second_batch) (dispatch second_batch (after_progress (first_batch 1) 0 [item 0] (shop 1)))
     = Some (Response 200 CloningCompleted,
             respond (post second_batch) (Response 200 CloningCompleted)
               (update_job 1 ''job''
                  \<lparr>set_status = Some Completed, set_completed_at = Some 7,
                     set_processed_count = None\<rparr>
                  (dispatch second_batch (after_progress (first_batch 1) 0 [item 0] (shop 1)))))"
proof -
  let ?w1 = "dispatch second_batch (after_progress (first_batch 1) 0 [item 0] (shop 1))"
  have a: "accepted (post second_batch) second_batch 1"
    by (simp add: accepted_def second_batch_def)
  have "length (source_rows ?w1 ''seller'') = 1"
    using source_rows_after_progress [of "first_batch 1" 0 "[item 0]" "shop 1"]
    by (simp add: source_rows_shop)
  then have "drop 1 (source_rows ?w1 ''seller'') = []" by simp
  moreover have "page_error ?w1 1 = None"
    using untroubled_shop [of 1] by (simp add: untroubled_def dispatch_def)
  ultimately have "page_of ?w1 second_batch 1 = Inr []"
    using page_of_rows [of ?w1 1 second_batch] by (simp add: second_batch_def)
  from batch_empty [OF this] handle_accepted [OF a, of ?w1]
  have h: "handle (post second_batch) ?w1
      = (Return (Response 200 CloningCompleted),
         update_job 1 ''job'' (mark_completed ?w1) ?w1)"
    by (simp add: second_batch_def)
  have m: "mark_completed ?w1
      = \<lparr>set_status = Some Completed, set_completed_at = Some 7, set_processed_count = None\<rparr>"
    by (simp add: mark_completed_def)
  from serve_return [OF h] show ?thesis by (simp only: m)
qed

lemma run_of_two:
  "run_events (post (first_batch 1)) (shop 1)
     = Some [JobUpdated 0 ''job'' mark_processing,
             JobUpdated 0 ''job'' (progress 1),
             Dispatched second_batch,
             JobUpdated 1 ''job''
               \<lparr>set_status = Some Completed, set_completed_at = Some 7,
                  set_processed_count = None\<rparr>,
             Responded (post second_batch) (Response 200 CloningCompleted),
             Responded (post (first_batch 1)) (Response 200 (Cloned 1 0 True))]"
proof -
  have nofail: "\<not> dispatch_fails (after_progress (first_batch 1) 0 [item 0] (shop 1)) second_batch"
    using untroubled_shop [of 1] by (simp add: untroubled_def)
  have c: "stored_count (first_batch 1) 0 [item 0] (shop 1) = 1"
    using stored_count_job [of "shop 1" "first_batch 1" "new_job 1" 0 "[item 0]"]
      counted_untroubled [OF untroubled_shop, of "first_batch 1" 0 "[item 0]" 1]
    by (simp add: shop_job new_job_def)
  from serve_chain [OF first_of_two nofail second_of_two]
  show ?thesis by (simp add: run_events_def c del: One_nat_def)
qed

text \<open>Whether an event answers a request, and where in a trace a request is first answered.\<close>

fun answers :: "request \<Rightarrow> event \<Rightarrow> bool" where
  "answers req (Responded req' answer) = (req' = req)"
| "answers req (JobUpdated invocation jid u) = False"
| "answers req (Dispatched nxt) = False"

definition answered_at :: "request \<Rightarrow> event list \<Rightarrow> nat" where
  "answered_at req evs = length (takeWhile (\<lambda>e. \<not> answers req e) evs)"

section \<open>Pagination and continuation\<close>

text \<open>
  C1, amended. Take a source account with \<open>N\<close> rows and a first request at offset 0
  with limit \<open>L\<close>, in a world where nothing fails, the target account is not the source
  account (so the run does not change the source rows), and the job row exists with a
  processed count of 0. Then the run returns after exactly \<open>N div L + 1\<close> invocations.
  Exactly \<open>ceil(N/L)\<close> of them process rows; when \<open>L\<close> divides \<open>N\<close> one more
  follows, since the invocation after a full last page finds an empty page and only
  completes the job. In dispatch order the invocations report \<open>L, ..., L, N mod L\<close>
  processed rows, and the job ends with processed count \<open>N\<close>, status \<^verbatim>\<open>completed\<close> and
  its completion time set. (12 rows with limit 5: three invocations, 5, 5 and 2 rows.)
\<close>

theorem paginated_run:
  "untroubled w \<and> accepted (post b) b 0 \<and> sourceUserId b \<noteq> targetUserId b
     \<and> clone_jobs w (jobId b) = Some j \<and> processed_count j = 0
     \<and> N = length (source_rows w (sourceUserId b)) \<longrightarrow>
   (\<exists>answer w' new. serve (post b) w = Some (answer, w')
      \<and> trace w' = trace w @ new
      \<and> length (replies new) = N div limit b + 1
      \<and> length (replies new)
          = (if limit b dvd N then (N + limit b - 1) div limit b + 1
             else (N + limit b - 1) div limit b)
      \<and> length (filter (\<lambda>r. processed_of r \<noteq> 0) (replies new))
          = (N + limit b - 1) div limit b
      \<and> map processed_of (rev (replies new))
          = replicate (N div limit b) (limit b) @ [N mod limit b]
      \<and> clone_jobs w' (jobId b)
          = Some (j\<lparr>status := Completed, processed_count := N,
                    completed_at := Some (clock w)\<rparr>))"
proof (intro impI, elim conjE)
  assume u: "untroubled w" and a: "accepted (post b) b 0"
    and d: "sourceUserId b \<noteq> targetUserId b" and j: "clone_jobs w (jobId b) = Some j"
    and z: "processed_count j = 0" and n: "N = length (source_rows w (sourceUserId b))"
  from a have L: "limit b \<noteq> 0" by (simp add: accepted_def)
  from run_from [OF u a d j, of N] n z
  obtain answer w' new where run: "serve (post b) w = Some (answer, w')"
    and tr: "trace w' = trace w @ new"
    and sizes: "map processed_of (rev (replies new))
          = replicate (N div limit b) (limit b) @ [N mod limit b]"
    and job: "clone_jobs w' (jobId b)
          = Some (j\<lparr>status := Completed, processed_count := N,
                    completed_at := Some (clock w)\<rparr>)"
    by auto
  from sizes have "length (map processed_of (rev (replies new)))
      = length (replicate (N div limit b) (limit b) @ [N mod limit b])"
    by simp
  then have count: "length (replies new) = N div limit b + 1" by simp
  have ceil: "N div limit b + 1
      = (if limit b dvd N then (N + limit b - 1) div limit b + 1
         else (N + limit b - 1) div limit b)"
    using L ceiling_div [of "limit b" N] by (simp split: if_splits)
  have pages: "length (filter (\<lambda>r. processed_of r \<noteq> 0) (replies new))
      = (N + limit b - 1) div limit b"
    using L sizes by (intro nonempty_pages) simp_all
  from run tr count ceil pages sizes job
  show "\<exists>answer w' new. serve (post b) w = Some (answer, w')
      \<and> trace w' = trace w @ new
      \<and> length (replies new) = N div limit b + 1
      \<and> length (replies new)
          = (if limit b dvd N then (N + limit b - 1) div limit b + 1
             else (N + limit b - 1) div limit b)
      \<and> length (filter (\<lambda>r. processed_of r \<noteq> 0) (replies new))
          = (N + limit b - 1) div limit b
      \<and> map processed_of (rev (replies new))
          = replicate (N div limit b) (limit b) @ [N mod limit b]
      \<and> clone_jobs w' (jobId b)
          = Some (j\<lparr>status := Completed, processed_count := N,
                    completed_at := Some (clock w)\<rparr>)"
    by (metis (no_types, lifting))
qed

theorem paginated_run_witness:
  "untroubled (shop 12) \<and> accepted (post (first_batch 5)) (first_batch 5) 0
   \<and> sourceUserId (first_batch 5) \<noteq> targetUserId (first_batch 5)
   \<and> clone_jobs (shop 12) (jobId (first_batch 5)) = Some (new_job 12)
   \<and> processed_count (new_job 12) = 0
   \<and> length (source_rows (shop 12) (sourceUserId (first_batch 5))) = 12
   \<and> (\<exists>answer w' new. serve (post (first_batch 5)) (shop 12) = Some (answer, w')
        \<and> trace w' = new \<and> length (replies new) = 3
        \<and> length (filter (\<lambda>r. processed_of r \<noteq> 0) (replies new)) = 3
        \<and> map processed_of (rev (replies new)) = [5, 5, 2]
        \<and> clone_jobs w' ''job''
            = Some ((new_job 12)\<lparr>status := Completed, processed_count := 12,
                      completed_at := Some 7\<rparr>))"
proof -
  have u: "untroubled (shop 12)" by (rule untroubled_shop)
  have a: "accepted (post (first_batch 5)) (first_batch 5) 0" by (simp add: accepted_first)
  have d: "sourceUserId (first_batch 5) \<noteq> targetUserId (first_batch 5)" by simp
  have j: "clone_jobs (shop 12) (jobId (first_batch 5)) = Some (new_job 12)"
    by (simp add: shop_job)
  have z: "processed_count (new_job 12) = 0" by (simp add: new_job_def)
  have n: "12 = length (source_rows (shop 12) (sourceUserId (first_batch 5)))"
    by (simp add: source_rows_shop)
  have r: "replicate 2 (5::nat) = [5, 5]"
    by (simp add: numeral_2_eq_2)
  from paginated_run [of "shop 12" "first_batch 5" "new_job 12" 12] u a d j z n
  have "\<exists>answer w' new. serve (post (first_batch 5)) (shop 12) = Some (answer, w')
        \<and> trace w' = new \<and> length (replies new) = 3
        \<and> length (filter (\<lambda>r. processed_of r \<noteq> 0) (replies new)) = 3
        \<and> map processed_of (rev (replies new)) = [5, 5, 2]
        \<and> clone_jobs w' ''job''
            = Some ((new_job 12)\<lparr>status := Completed, processed_count := 12,
                      completed_at := Some 7\<rparr>)"
    by (simp add: r)
  with u a d j z n show ?thesis by simp
qed

text \<open>
  C1 as stated, with \<open>ceil(N/L)\<close> invocations for every \<open>N\<close>, fails for five rows and
  a limit of five: the first invocation clones all five rows and dispatches the next,
  which finds an empty page and completes the job. Two invocations, and
  \<open>ceil(5/5) = 1\<close>.
\<close>

theorem full_last_page_costs_an_invocation:
  "length (source_rows (shop 5) (sourceUserId (first_batch 5))) = 5
   \<and> limit (first_batch 5) = 5
   \<and> invocations (post (first_batch 5)) (shop 5) = Some 2
   \<and> invocations (post (first_batch 5)) (shop 5) \<noteq> Some ((5 + 5 - 1) div 5)"
proof -
  from shop_run [of 5 5]
  obtain answer w' new where run: "serve (post (first_batch 5)) (shop 5) = Some (answer, w')"
    and tr: "trace w' = new"
    and sizes: "map processed_of (rev (replies new)) = replicate (5 div 5) 5 @ [5 mod 5]"
    by auto
  from sizes have "length (map processed_of (rev (replies new)))
      = length (replicate (5 div 5) (5::nat) @ [5 mod 5])"
    by simp
  then have "length (replies new) = 2" by simp
  with run tr have "invocations (post (first_batch 5)) (shop 5) = Some 2"
    by (simp add: invocations_def)
  then show ?thesis by (simp add: source_rows_shop)
qed

text \<open>
  C2, amended. For an accepted request whose page is not empty: when the page holds
  fewer rows than the limit, the invocation returns, its last job update sets the status
  \<^verbatim>\<open>completed\<close> and the completion time, and the job row ends completed; when the page
  holds exactly \<open>limit\<close> rows, the invocation writes no \<^verbatim>\<open>completed\<close>, dispatches the
  request for offset \<open>off + limit\<close> and awaits it: in every run that returns, its own
  response is the last event, after everything the dispatched invocation did and, unless
  the dispatch was rejected, after that invocation's response.
\<close>

theorem continuation_decision:
  "accepted req b off \<and> page_of w b off = Inr page \<and> page \<noteq> [] \<longrightarrow>
   (length page < limit b \<longrightarrow>
      (\<exists>answer. fst (handle req w) = Return answer)
      \<and> (\<exists>before u. new_events req w = before @ [JobUpdated off (jobId b) u]
            \<and> set_status u = Some Completed \<and> set_completed_at u = Some (clock w))
      \<and> (\<forall>j. clone_jobs w (jobId b) = Some j \<longrightarrow>
            (\<exists>j'. clone_jobs (snd (handle req w)) (jobId b) = Some j'
               \<and> status j' = Completed \<and> completed_at j' = Some (clock w))))
   \<and> (length page = limit b \<longrightarrow>
      (\<exists>answer. fst (handle req w)
          = AwaitDispatch (b\<lparr>offset := Some (off + limit b)\<rparr>) answer)
      \<and> \<not> list_ex (\<lambda>e. written_status e = Some Completed) (new_events req w)
      \<and> (\<forall>answer w'. serve req w = Some (answer, w') \<longrightarrow>
            (\<exists>nested. trace w'
                = trace w @ new_events req w
                    @ [Dispatched (b\<lparr>offset := Some (off + limit b)\<rparr>)]
                    @ nested @ [Responded req answer]
              \<and> (\<not> dispatch_fails w (b\<lparr>offset := Some (off + limit b)\<rparr>) \<longrightarrow>
                   (\<exists>before reply. nested
                      = before @ [Responded (post (b\<lparr>offset := Some (off + limit b)\<rparr>))
                                    reply])))))"
proof (intro impI, elim conjE, intro conjI impI allI)
  assume acc: "accepted req b off" and page: "page_of w b off = Inr page" and ne: "page \<noteq> []"
  from acc have j: "json req = Some b" and o: "offset b = Some off"
    by (simp_all add: accepted_def)
  have h: "handle req w = batch off b w" using acc by (rule handle_accepted)
  {
    assume "length page < limit b"
    then have short: "length page \<noteq> limit b" by simp
    note last = batch_last [OF page ne short]
    show "\<exists>answer. fst (handle req w) = Return answer" by (simp add: h last)
    have "new_events req w
        = [JobUpdated off (jobId b) mark_processing,
           JobUpdated off (jobId b) (progress (stored_count b off page w))]
          @ [JobUpdated off (jobId b) (mark_completed (after_progress b off page w))]"
      using acc page ne short by (simp add: new_events_cases j o)
    then show "\<exists>before u. new_events req w = before @ [JobUpdated off (jobId b) u]
            \<and> set_status u = Some Completed \<and> set_completed_at u = Some (clock w)"
      by (metis marks(5) marks(6) after_progress_clock)
    fix jb assume job: "clone_jobs w (jobId b) = Some jb"
    show "\<exists>j'. clone_jobs (snd (handle req w)) (jobId b) = Some j'
               \<and> status j' = Completed \<and> completed_at j' = Some (clock w)"
      using job_after_progress [OF job, of off page]
      by (simp add: h last job_after_completed)
  }
  {
    assume full: "length page = limit b"
    note more = batch_full [OF page ne full]
    show "\<exists>answer. fst (handle req w)
          = AwaitDispatch (b\<lparr>offset := Some (off + limit b)\<rparr>) answer"
      by (simp add: h more)
    show "\<not> list_ex (\<lambda>e. written_status e = Some Completed) (new_events req w)"
      using acc page ne full by (simp add: new_events_cases j o)
    fix answer w' assume run: "serve req w = Some (answer, w')"
    have "handle req w
        = (AwaitDispatch (b\<lparr>offset := Some (off + limit b)\<rparr>)
             (Response 200 (Cloned (fst (fst (counted b off page w)))
                              (snd (fst (counted b off page w))) True)),
           after_progress b off page w)"
      using h more by simp
    from awaited_run [OF this run, unfolded after_progress_frame]
    show "\<exists>nested. trace w'
                = trace w @ new_events req w
                    @ [Dispatched (b\<lparr>offset := Some (off + limit b)\<rparr>)]
                    @ nested @ [Responded req answer]
              \<and> (\<not> dispatch_fails w (b\<lparr>offset := Some (off + limit b)\<rparr>) \<longrightarrow>
                   (\<exists>before reply. nested
                      = before @ [Responded (post (b\<lparr>offset := Some (off + limit b)\<rparr>))
                                    reply]))"
      by blast
  }
qed

theorem continuation_decision_witness:
  "accepted (post (first_batch 5)) (first_batch 5) 0
   \<and> page_of (shop 2) (first_batch 5) 0 = Inr [item 0, item 1]
   \<and> length [item 0, item 1] < limit (first_batch 5)
   \<and> (\<exists>answer. fst (handle (post (first_batch 5)) (shop 2)) = Return answer)
   \<and> (\<exists>j'. clone_jobs (snd (handle (post (first_batch 5)) (shop 2))) ''job'' = Some j'
          \<and> status j' = Completed \<and> completed_at j' = Some 7)
   \<and> accepted (post (first_batch 2)) (first_batch 2) 0
   \<and> page_of (shop 2) (first_batch 2) 0 = Inr [item 0, item 1]
   \<and> length [item 0, item 1] = limit (first_batch 2)
   \<and> (\<exists>answer. fst (handle (post (first_batch 2)) (shop 2))
          = AwaitDispatch ((first_batch 2)\<lparr>offset := Some 2\<rparr>) answer)
   \<and> \<not> list_ex (\<lambda>e. written_status e = Some Completed)
          (new_events (post (first_batch 2)) (shop 2))"
proof -
  have a5: "accepted (post (first_batch 5)) (first_batch 5) 0" by (simp add: accepted_first)
  have a2: "accepted (post (first_batch 2)) (first_batch 2) 0" by (simp add: accepted_first)
  have ne: "[item 0, item 1] \<noteq> []" by simp
  have short: "length [item 0, item 1] < limit (first_batch 5)" by simp
  have full: "length [item 0, item 1] = limit (first_batch 2)" by simp
  have job: "clone_jobs (shop 2) (jobId (first_batch 5)) = Some (new_job 2)"
    by (simp add: shop_job)
  from continuation_decision
    [of "post (first_batch 5)" "first_batch 5" 0 "shop 2" "[item 0, item 1]"]
    a5 page_shop_2 ne short job
  have s: "(\<exists>answer. fst (handle (post (first_batch 5)) (shop 2)) = Return answer)
   \<and> (\<exists>j'. clone_jobs (snd (handle (post (first_batch 5)) (shop 2))) ''job'' = Some j'
          \<and> status j' = Completed \<and> completed_at j' = Some 7)"
    by simp
  have next_offset: "(first_batch 2)\<lparr>offset := Some (0 + limit (first_batch 2))\<rparr>
      = (first_batch 2)\<lparr>offset := Some 2\<rparr>"
    by simp
  from continuation_decision
    [of "post (first_batch 2)" "first_batch 2" 0 "shop 2" "[item 0, item 1]",
      unfolded next_offset]
    a2 page_shop_2_full ne full
  have f: "(\<exists>answer. fst (handle (post (first_batch 2)) (shop 2))
          = AwaitDispatch ((first_batch 2)\<lparr>offset := Some 2\<rparr>) answer)
   \<and> \<not> list_ex (\<lambda>e. written_status e = Some Completed)
          (new_events (post (first_batch 2)) (shop 2))"
    by blast
  from a5 a2 page_shop_2 page_shop_2_full short full s f show ?thesis by blast
qed

text \<open>
  C2 as stated has the worker dispatch the next invocation without waiting for it. The
  handler awaits the fetch (\<^verbatim>\<open>await fetch(invokeUrl, ...)\<close>), and the invoked handler
  answers only when its own work is done. In the run over one product with a limit of
  one, the second request is answered at position 4 of the trace, after it completed the
  job, and the first request only at position 5.
\<close>

theorem dispatch_is_awaited:
  "run_events (post (first_batch 1)) (shop 1)
     = Some [JobUpdated 0 ''job'' mark_processing,
             JobUpdated 0 ''job'' (progress 1),
             Dispatched second_batch,
             JobUpdated 1 ''job''
               \<lparr>set_status = Some Completed, set_completed_at = Some 7,
                  set_processed_count = None\<rparr>,
             Responded (post second_batch) (Response 200 CloningCompleted),
             Responded (post (first_batch 1)) (Response 200 (Cloned 1 0 True))]
   \<and> map_option (answered_at (post second_batch)) (run_events (post (first_batch 1)) (shop 1))
       = Some 4
   \<and> map_option (answered_at (post (first_batch 1)))
         (run_events (post (first_batch 1)) (shop 1))
       = Some 5"
  unfolding run_of_two
  by (simp add: answered_at_def post_def second_batch_def first_batch_def)

section \<open>Asset replication\<close>

text \<open>
  What happens at the network while the images of one product are copied
  (\<^verbatim>\<open>processBatch\<close>, lines 478 to 530). \<^verbatim>\<open>productImages.map(async (image) => ...)\<close>
  calls the callback for every image in turn, and a call of an async function runs
  its body up to the first \<^verbatim>\<open>await\<close>, here \<^verbatim>\<open>await fetch(image.url, ...)\<close>: every
  download is started while \<^verbatim>\<open>map\<close> runs. Only then is \<^verbatim>\<open>imageLimiter\<close> called, which
  awaits the promises batch by batch. No transfer can settle before the first
  \<^verbatim>\<open>await\<close> of the limiter, since callbacks run only when the running code yields.
\<close>

datatype transfer_event = Started string | Awaited "string list"

definition url_of :: "row \<Rightarrow> string" where
  "url_of img = (case img ''url'' of Some (Text url) \<Rightarrow> url | _ \<Rightarrow> [])"

definition replication_events :: "row list \<Rightarrow> transfer_event list" where
  "replication_events productImages =
     map (\<lambda>img. Started (url_of img)) productImages
       @ map Awaited (batches_from 0 (map url_of productImages))"

fun is_start :: "transfer_event \<Rightarrow> bool" where
  "is_start (Started url) = True"
| "is_start (Awaited urls) = False"

text \<open>The transfers in flight when the limiter awaits its first batch.\<close>

definition in_flight_at_first_await :: "transfer_event list \<Rightarrow> nat" where
  "in_flight_at_first_await evs = length (takeWhile is_start evs)"

definition picture :: "nat \<Rightarrow> row" where
  "picture i = [''product_id'' \<mapsto> Text ''p0'', ''url'' \<mapsto> Text (''https://cdn/'' @ decimal i),
                ''is_featured'' \<mapsto> Flag (i = 0)]"

lemma batches_from_step:
  "i < length xs \<Longrightarrow>
   batches_from i xs = slice i (i + 5) xs # batches_from (i + 5) xs"
  by (subst batches_from.simps) (simp add: CONCURRENT_IMAGE_LIMIT_def)

lemma batches_from_end: "length xs \<le> i \<Longrightarrow> batches_from i xs = []"
  by (subst batches_from.simps) simp

lemma concat_batches_from: "concat (batches_from i xs) = drop i xs"
proof (induction "length xs - i" arbitrary: i rule: less_induct)
  case less
  show ?case
  proof (cases "i < length xs")
    case True
    then have "length xs - (i + 5) < length xs - i" by simp
    from less [OF this] have "concat (batches_from (i + 5) xs) = drop (i + 5) xs" .
    then have "concat (batches_from i xs) = take 5 (drop i xs) @ drop 5 (drop i xs)"
      using True by (simp add: batches_from_step slice_def add.commute)
    then show ?thesis
      using append_take_drop_id [of 5 "drop i xs"] by (simp add: add.commute)
  next
    case False
    then show ?thesis by (simp add: batches_from_end)
  qed
qed

lemma imageLimiter_all: "imageLimiter imagePromises = imagePromises"
  by (simp add: imageLimiter_def concat_batches_from)

lemma batches_from_bounded:
  "list_all (\<lambda>batch. length batch \<le> CONCURRENT_IMAGE_LIMIT) (batches_from i xs)"
proof (induction "length xs - i" arbitrary: i rule: less_induct)
  case less
  show ?case
  proof (cases "i < length xs")
    case True
    then have "length xs - (i + 5) < length xs - i" by simp
    from less [OF this] True show ?thesis
      by (simp add: batches_from_step slice_def CONCURRENT_IMAGE_LIMIT_def)
  next
    case False
    then show ?thesis by (simp add: batches_from_end)
  qed
qed

lemma starts_then_awaits:
  "takeWhile is_start (map (\<lambda>img. Started (url_of img)) productImages @ map Awaited batches)
     = map (\<lambda>img. Started (url_of img)) productImages"
proof (induction productImages)
  case Nil
  show ?case by (cases batches) simp_all
next
  case (Cons img rest)
  then show ?case by simp
qed

lemma all_started_first:
  "in_flight_at_first_await (replication_events productImages) = length productImages"
  by (simp add: in_flight_at_first_await_def replication_events_def starts_then_awaits)

text \<open>
  C4 says that no more than 5 transfers are ever in flight for the images of an item.
  The limiter awaits in batches of at most 5, and its results are those of all images
  in order (\<open>batches_from_bounded\<close>, \<open>imageLimiter_all\<close>), but it is handed promises
  that already run. For a product with six images, six downloads are in flight when the
  first batch of five is awaited.
\<close>

theorem six_transfers_in_flight:
  "in_flight_at_first_await (replication_events (map picture [0..<6])) = 6
   \<and> CONCURRENT_IMAGE_LIMIT = 5
   \<and> map length (batches_from 0 (map url_of (map picture [0..<6]))) = [5, 1]"
proof -
  have six: "length (map url_of (map picture [0..<6])) = 6" by simp
  then obtain a b c d e f where xs: "map url_of (map picture [0..<6]) = [a, b, c, d, e, f]"
    by (auto simp: length_Suc_conv eval_nat_numeral)
  have "batches_from 0 [a, b, c, d, e, f] = [[a, b, c, d, e], [f]]"
    by (simp add: batches_from_step batches_from_end slice_def)
  with xs show ?thesis
    by (simp add: all_started_first CONCURRENT_IMAGE_LIMIT_def)
qed

section \<open>The page query has no order\<close>

text \<open>
  The same two products, returned by the database in the other order: nothing was
  inserted, deleted or changed.
\<close>

definition reordered_shop :: world where
  "reordered_shop = (shop 2)\<lparr>products := [item 1, item 0]\<rparr>"

lemma item_distinct: "item 0 \<noteq> item 1"
proof
  assume "item 0 = item 1"
  then have "item 0 ''id'' = item 1 ''id''" by simp
  then show False by (simp add: item_def digit_def)
qed

text \<open>
  C5 says that the page is loaded under a stable ordering (creation order, then
  identity), so that the pages of successive invocations partition the source items.
  The page is rows \<open>offset\<close> to \<open>offset + limit - 1\<close> (\<open>page_of_rows\<close>), but the query
  asks for no order, and the database is free to return the rows of an unordered query
  in another order each time. With the same two source rows returned in the other order
  for the second query, the pages at offsets 0 and 1 (limit 1) both hold the first
  product, and the second product is never loaded.
\<close>

theorem pages_follow_the_database_order:
  "set (source_rows (shop 2) ''seller'') = set (source_rows reordered_shop ''seller'')
   \<and> page_of (shop 2) (first_batch 1) 0 = Inr [item 0]
   \<and> page_of reordered_shop second_batch 1 = Inr [item 0]
   \<and> item 1 \<noteq> item 0"
proof -
  have two: "[0..<2] = [0, Suc 0]" by (simp add: upt_rec numeral_2_eq_2)
  have r: "source_rows reordered_shop ''seller'' = [item 1, item 0]"
    by (simp add: source_rows_def reordered_shop_def item_def)
  have s: "source_rows (shop 2) ''seller'' = [item 0, item 1]"
    by (simp add: source_rows_shop two)
  have p0: "page_of (shop 2) (first_batch 1) 0 = Inr [item 0]"
    using page_shop [of 1 2] by (simp add: two)
  have "page_error reordered_shop 1 = None" by (simp add: reordered_shop_def shop_def)
  then have p1: "page_of reordered_shop second_batch 1 = Inr [item 0]"
    using page_of_rows [of reordered_shop 1 second_batch]
    by (simp add: r second_batch_def)
  from r s p0 p1 item_distinct show ?thesis by auto
qed

section \<open>The inserted row has no slug\<close>

text \<open>
  A source product with the slug \<open>chair\<close>, and a target account that already owns a
  product with this slug.
\<close>

definition chair :: row where
  "chair = [''id'' \<mapsto> Text ''p0'', ''user_id'' \<mapsto> Text ''seller'', ''slug'' \<mapsto> Text ''chair'',
            ''title'' \<mapsto> Text ''Chair'', ''price'' \<mapsto> Number 120]"

definition owned_chair :: row where
  "owned_chair = [''id'' \<mapsto> Text ''q0'', ''user_id'' \<mapsto> Text ''copy'', ''slug'' \<mapsto> Text ''chair'',
                  ''title'' \<mapsto> Text ''Chair'']"

definition chair_shop :: world where
  "chair_shop = (shop 0)\<lparr>products := [chair, owned_chair]\<rparr>"

lemma payload_has_no_slug: "map_of (insert_payload target product) ''slug'' = None"
  by (simp add: insert_payload_def)

text \<open>The columns that \<^verbatim>\<open>processBatch\<close> copies from the source row.\<close>

definition business_columns :: "string list" where
  "business_columns =
     [''title'', ''description'', ''price'', ''discounted_price'', ''status'', ''category'',
      ''brand'', ''model'', ''gender'', ''condition'', ''video_url'', ''featured_offer_price'',
      ''featured_offer_installment'', ''featured_offer_description'', ''is_starting_price'',
      ''short_description'', ''is_visible_on_storefront'', ''external_checkout_url'',
      ''colors'', ''sizes'', ''display_order'']"

lemma payload_columns:
  "map fst (insert_payload target product) = ''user_id'' # business_columns"
  by (simp add: insert_payload_def business_columns_def)

lemma business_fields_cloned:
  assumes "column \<in> set business_columns"
  shows "fst (insert_product (insert_payload target product) w) column = product column"
proof -
  have "object (insert_payload target product) column = product column"
    using assms unfolding business_columns_def insert_payload_def object_def
    by (elim set_ConsD [elim_format] disjE) simp_all
  moreover have "column \<noteq> ''id''" "column \<noteq> ''created_at''" "column \<noteq> ''updated_at''"
    using assms by (auto simp: business_columns_def)
  ultimately show ?thesis by (simp add: insert_product_def Let_def)
qed

lemma identity_regenerated:
  "fst (insert_product (insert_payload target product) w) ''id''
     = Some (Text (new_id w (length (products w))))"
  "fst (insert_product (insert_payload target product) w) ''created_at''
     = Some (Number (int (clock w)))"
  "fst (insert_product (insert_payload target product) w) ''updated_at''
     = Some (Number (int (clock w)))"
  by (simp_all add: insert_product_def Let_def)

text \<open>
  C6 says that the batch worker clones the business fields of each item and resolves a
  collision-free slug before the insert, so that a source item \<open>chair\<close> becomes
  \<open>chair-1\<close> when the target owns \<open>chair\<close>. The business fields are copied
  (\<open>business_fields_cloned\<close>), and the identity and the timestamps are left to the
  database (\<open>identity_regenerated\<close>); but the object that \<^verbatim>\<open>processBatch\<close> inserts has
  no \<^verbatim>\<open>slug\<close> key, and \<^verbatim>\<open>generateUniqueSlug\<close> is called only by
  \<^verbatim>\<open>copy-products-between-users\<close>. The cloned chair is inserted and counted, with its
  title and price, and with no slug, where the resolver would give \<open>chair-1\<close>.
\<close>

theorem cloned_chair_has_no_slug:
  "map_of (insert_payload ''copy'' chair) ''slug'' = None
   \<and> fst (processBatch [chair] ''seller'' ''copy'' ''job'' chair_shop) = (1, 0)
   \<and> length (products (snd (processBatch [chair] ''seller'' ''copy'' ''job'' chair_shop))) = 3
   \<and> last (products (snd (processBatch [chair] ''seller'' ''copy'' ''job'' chair_shop)))
        ''user_id'' = Some (Text ''copy'')
   \<and> last (products (snd (processBatch [chair] ''seller'' ''copy'' ''job'' chair_shop)))
        ''title'' = Some (Text ''Chair'')
   \<and> last (products (snd (processBatch [chair] ''seller'' ''copy'' ''job'' chair_shop)))
        ''price'' = Some (Number 120)
   \<and> last (products (snd (processBatch [chair] ''seller'' ''copy'' ''job'' chair_shop)))
        ''slug'' = None
   \<and> fst (generateUniqueSlug ''chair'' {|''chair''|}) = ''chair-1''"
proof -
  have f: "item_fault chair_shop chair = NoFault" by (simp add: chair_shop_def shop_def)
  have i: "copy_images chair newProduct w = w" if "product_images w = []" for newProduct w
    using that by (simp add: copy_images_def chair_def)
  have e: "product_images (snd (insert_product payload chair_shop)) = []" for payload
    by (simp add: insert_product_def Let_def chair_shop_def shop_def)
  have run: "processBatch [chair] ''seller'' ''copy'' ''job'' chair_shop
      = ((1, 0), snd (insert_product (insert_payload ''copy'' chair) chair_shop))"
    by (simp add: processBatch_def f Let_def i [OF e])
  have new: "last (products (snd (insert_product (insert_payload ''copy'' chair) chair_shop)))
      = fst (insert_product (insert_payload ''copy'' chair) chair_shop)"
    by simp
  have row: "fst (insert_product (insert_payload ''copy'' chair) chair_shop) ''slug'' = None"
    "fst (insert_product (insert_payload ''copy'' chair) chair_shop) ''title''
       = Some (Text ''Chair'')"
    "fst (insert_product (insert_payload ''copy'' chair) chair_shop) ''price''
       = Some (Number 120)"
    "fst (insert_product (insert_payload ''copy'' chair) chair_shop) ''user_id''
       = Some (Text ''copy'')"
    by (simp_all add: insert_product_def Let_def object_def insert_payload_def chair_def)
  have len: "length (products (snd (insert_product (insert_payload ''copy'' chair) chair_shop)))
      = 3"
    by (simp add: chair_shop_def)
  show ?thesis
    by (simp only: run new row len payload_has_no_slug chair_once fst_conv snd_conv simp_thms)
qed

end
